theory Spec2Isabelle
  imports Complex_Main "HOL-Library.Word" "HOL-Library.Mapping" "HOL-Library.AList_Mapping"
begin

section \<open>Containers of the C++ standard library used by the simulator\<close>

text \<open>
  Keys are \<^verbatim>\<open>std::string\<close>. The counters \<^verbatim>\<open>hits\<close>, \<^verbatim>\<open>misses\<close> and the LFU
  frequencies are C++ \<^verbatim>\<open>int\<close>: they are 32-bit words, read as signed numbers by
  \<open>sint\<close>, and \<^verbatim>\<open>++\<close> and \<^verbatim>\<open>+\<close> are the additions of the word type, which wrap
  around (signed overflow is undefined in C++; the model takes the two's-complement
  result that the usual implementations give). The capacity is a \<^verbatim>\<open>size_t\<close> that is
  only compared with container sizes, never computed with; it is a \<^typ>\<open>nat\<close>.

  Operations whose behaviour is undefined in C++ (\<^verbatim>\<open>back\<close>, \<^verbatim>\<open>pop_back\<close>,
  \<^verbatim>\<open>front\<close>, \<^verbatim>\<open>pop\<close> on an empty container, \<^verbatim>\<open>erase\<close> and \<^verbatim>\<open>splice\<close> through an
  iterator that does not denote a node of the list) return a \<open>fault\<close>.
\<close>

type_synonym cpp_int = "32 word"

type_synonym key = string

datatype fault = EmptyContainer | InvalidIterator

text \<open>
  A \<^verbatim>\<open>std::list<std::string>\<close> is the sequence of its nodes, front first. A node is
  identified by the number it received when it was allocated; an iterator is the
  identity of a node or the past-the-end iterator. Node identities are never reused, so
  an iterator to an erased node denotes no node of any list.
\<close>

type_synonym node = "nat \<times> key"

type_synonym string_list = "node list"

datatype list_iterator = Node nat | End

definition list_begin :: "string_list \<Rightarrow> list_iterator" where
  "list_begin l = (case l of [] \<Rightarrow> End | n # _ \<Rightarrow> Node (fst n))"

definition list_back :: "string_list \<Rightarrow> fault + key" where
  "list_back l = (if l = [] then Inl EmptyContainer else Inr (snd (last l)))"

definition list_pop_back :: "string_list \<Rightarrow> fault + string_list" where
  "list_pop_back l = (if l = [] then Inl EmptyContainer else Inr (butlast l))"

definition list_push_front :: "nat \<Rightarrow> key \<Rightarrow> string_list \<Rightarrow> string_list" where
  "list_push_front fresh k l = (fresh, k) # l"

definition list_erase :: "string_list \<Rightarrow> list_iterator \<Rightarrow> fault + string_list" where
  "list_erase l it =
     (case it of
        End \<Rightarrow> Inl InvalidIterator
      | Node a \<Rightarrow>
          (case find (\<lambda>n. fst n = a) l of
             None \<Rightarrow> Inl InvalidIterator
           | Some n \<Rightarrow> Inr (filter (\<lambda>n. fst n \<noteq> a) l)))"

text \<open>\<^verbatim>\<open>l.splice(l.begin(), l, it)\<close>: the node at \<open>it\<close> is relinked at the front.\<close>

definition list_splice_begin :: "string_list \<Rightarrow> list_iterator \<Rightarrow> fault + string_list" where
  "list_splice_begin l it =
     (case it of
        End \<Rightarrow> Inl InvalidIterator
      | Node a \<Rightarrow>
          (case find (\<lambda>n. fst n = a) l of
             None \<Rightarrow> Inl InvalidIterator
           | Some n \<Rightarrow> Inr (n # filter (\<lambda>n. fst n \<noteq> a) l)))"

text \<open>The keys held by a list, front to back.\<close>

definition list_keys :: "string_list \<Rightarrow> key list" where
  "list_keys l = map snd l"

text \<open>A \<^verbatim>\<open>std::queue<std::string>\<close>: front of the queue first.\<close>

definition queue_front :: "key list \<Rightarrow> fault + key" where
  "queue_front q = (case q of [] \<Rightarrow> Inl EmptyContainer | k # _ \<Rightarrow> Inr k)"

definition queue_pop :: "key list \<Rightarrow> fault + key list" where
  "queue_pop q = (case q of [] \<Rightarrow> Inl EmptyContainer | _ # r \<Rightarrow> Inr r)"

definition queue_push :: "key \<Rightarrow> key list \<Rightarrow> key list" where
  "queue_push k q = q @ [k]"

section \<open>The policies\<close>

text \<open>
  What \<^verbatim>\<open>access\<close> writes on the trace: \<^verbatim>\<open>-> HIT\<close>, or \<^verbatim>\<open>-> MISS\<close> followed, when the
  cache was full, by the key it evicts. The call of \<^verbatim>\<open>print_cache_state\<close> that ends every
  \<^verbatim>\<open>access\<close> only writes the contents out and changes no field; it is left out.
\<close>

datatype event = Hit | Miss "key option"

subsection \<open>ICachePolicy\<close>

record ICachePolicy =
  capacity :: nat
  hits :: cpp_int
  misses :: cpp_int

definition ICachePolicy_init :: "nat \<Rightarrow> ICachePolicy" where
  "ICachePolicy_init cap =
     (let p = \<lparr>capacity = cap, hits = 0, misses = 0\<rparr>
      in if capacity p = 0 then p\<lparr>capacity := 1\<rparr> else p)"

text \<open>
  The value of a \<^verbatim>\<open>double\<close>: a finite number, an infinity or a NaN. The result of a
  division or a multiplication is the exact result rounded to a representable number;
  the rounding of the platform's arithmetic is the parameter \<open>rnd\<close> of the two
  operations (the operands below are 32-bit integers and the constant 100, so that no
  result leaves the range of the finite doubles). A division by zero yields what IEEE
  arithmetic yields, a NaN for \<open>0/0\<close> and an infinity otherwise. The conversion of an
  \<^verbatim>\<open>int\<close> to \<^verbatim>\<open>double\<close> is exact.
\<close>

datatype double = Finite real | Infinite | NaN

definition double_div :: "(real \<Rightarrow> real) \<Rightarrow> real \<Rightarrow> real \<Rightarrow> double" where
  "double_div rnd x y =
     (if y = 0 then (if x = 0 then NaN else Infinite) else Finite (rnd (x / y)))"

definition double_mul :: "(real \<Rightarrow> real) \<Rightarrow> double \<Rightarrow> real \<Rightarrow> double" where
  "double_mul rnd d y =
     (case d of Finite x \<Rightarrow> Finite (rnd (x * y)) | Infinite \<Rightarrow> Infinite | NaN \<Rightarrow> NaN)"

text \<open>
  What \<^verbatim>\<open>print_stats\<close> writes: three \<^verbatim>\<open>int\<close>s and the hit rate, a \<^verbatim>\<open>double\<close> that
  depends on the rounding \<open>rnd\<close> of the platform.
\<close>

record stats =
  total_accesses :: cpp_int
  cache_hits :: cpp_int
  cache_misses :: cpp_int
  hit_rate :: "(real \<Rightarrow> real) \<Rightarrow> double"

text \<open>The three \<^verbatim>\<open>print_stats\<close> overrides have the same body, on the base-class counters.\<close>

definition print_stats_of :: "cpp_int \<Rightarrow> cpp_int \<Rightarrow> stats" where
  "print_stats_of h m =
     \<lparr>total_accesses = h + m, cache_hits = h, cache_misses = m,
      hit_rate = (\<lambda>rnd.
        if sint (h + m) > 0
        then double_mul rnd
               (double_div rnd (real_of_int (sint h)) (real_of_int (sint (h + m)))) 100
        else Finite 0)\<rparr>"

subsection \<open>LRUCache\<close>

text \<open>
  Beside the fields of the class, \<open>lru_alloc\<close> is the number the next node allocated by
  \<^verbatim>\<open>push_front\<close> receives (\<open>lfu_alloc\<close> plays this part for LFU).
\<close>

record LRUCache = ICachePolicy +
  lru_list :: string_list
  cache_map :: "(key, list_iterator) mapping"
  lru_alloc :: nat

definition LRUCache_init :: "nat \<Rightarrow> LRUCache" where
  "LRUCache_init cap =
     ICachePolicy.extend (ICachePolicy_init cap)
       (LRUCache.fields [] Mapping.empty 0)"

definition LRU_access :: "LRUCache \<Rightarrow> key \<Rightarrow> fault + (event \<times> LRUCache)" where
  "LRU_access c key =
     (case Mapping.lookup (cache_map c) key of
        Some it \<Rightarrow>
          (case list_splice_begin (lru_list c) it of
             Inl f \<Rightarrow> Inl f
           | Inr l \<Rightarrow>
               Inr (Hit, c\<lparr>hits := hits c + 1, lru_list := l,
                            cache_map := Mapping.update key (list_begin l) (cache_map c)\<rparr>))
      | None \<Rightarrow>
          (case (if length (lru_list c) \<ge> capacity c
                 then (case list_back (lru_list c) of
                         Inl f \<Rightarrow> Inl f
                       | Inr lru_key \<Rightarrow>
                           (case list_pop_back (lru_list c) of
                              Inl f \<Rightarrow> Inl f
                            | Inr l \<Rightarrow>
                                Inr (Some lru_key, Mapping.delete lru_key (cache_map c), l)))
                 else Inr (None, cache_map c, lru_list c)) of
             Inl f \<Rightarrow> Inl f
           | Inr (evicted, m, l) \<Rightarrow>
               (let l' = list_push_front (lru_alloc c) key l
                in Inr (Miss evicted,
                        c\<lparr>misses := misses c + 1, lru_list := l',
                          cache_map := Mapping.update key (list_begin l') m,
                          lru_alloc := Suc (lru_alloc c)\<rparr>))))"

definition LRU_print_stats :: "LRUCache \<Rightarrow> stats" where
  "LRU_print_stats c = print_stats_of (hits c) (misses c)"

subsection \<open>FIFOCache\<close>

record FIFOCache = ICachePolicy +
  fifo_queue :: "key list"
  cache_set :: "key set"

definition FIFOCache_init :: "nat \<Rightarrow> FIFOCache" where
  "FIFOCache_init cap =
     ICachePolicy.extend (ICachePolicy_init cap) (FIFOCache.fields [] {})"

definition FIFO_access :: "FIFOCache \<Rightarrow> key \<Rightarrow> fault + (event \<times> FIFOCache)" where
  "FIFO_access c key =
     (if key \<in> cache_set c
      then Inr (Hit, c\<lparr>hits := hits c + 1\<rparr>)
      else
        (case (if length (fifo_queue c) \<ge> capacity c
               then (case queue_front (fifo_queue c) of
                       Inl f \<Rightarrow> Inl f
                     | Inr fifo_key \<Rightarrow>
                         (case queue_pop (fifo_queue c) of
                            Inl f \<Rightarrow> Inl f
                          | Inr q \<Rightarrow> Inr (Some fifo_key, q, cache_set c - {fifo_key})))
               else Inr (None, fifo_queue c, cache_set c)) of
           Inl f \<Rightarrow> Inl f
         | Inr (evicted, q, s) \<Rightarrow>
             Inr (Miss evicted,
                  c\<lparr>misses := misses c + 1, fifo_queue := queue_push key q,
                    cache_set := insert key s\<rparr>)))"

definition FIFO_print_stats :: "FIFOCache \<Rightarrow> stats" where
  "FIFO_print_stats c = print_stats_of (hits c) (misses c)"

subsection \<open>LFUCache\<close>

type_synonym cache_entry = "cpp_int \<times> list_iterator"

record LFUCache = ICachePolicy +
  lfu_cache_map :: "(key, cache_entry) mapping"
  freq_map :: "(cpp_int, string_list) mapping"
  min_frequency :: cpp_int
  lfu_alloc :: nat

text \<open>
  \<^verbatim>\<open>freq_map[f]\<close>: \<^verbatim>\<open>operator[]\<close> of \<^verbatim>\<open>std::unordered_map\<close> yields the list stored
  under \<open>f\<close>, an empty list when there is none yet.
\<close>

definition freq_at :: "(cpp_int, string_list) mapping \<Rightarrow> cpp_int \<Rightarrow> string_list" where
  "freq_at fm f = Mapping.lookup_default [] fm f"

definition LFUCache_init :: "nat \<Rightarrow> LFUCache" where
  "LFUCache_init cap =
     ICachePolicy.extend (ICachePolicy_init cap)
       (LFUCache.fields Mapping.empty Mapping.empty 0 0)"

definition update_frequency :: "LFUCache \<Rightarrow> key \<Rightarrow> cache_entry \<Rightarrow> fault + LFUCache" where
  "update_frequency c key entry =
     (let old_freq = fst entry;
          new_freq = old_freq + 1
      in case list_erase (freq_at (freq_map c) old_freq) (snd entry) of
           Inl f \<Rightarrow> Inl f
         | Inr l_old \<Rightarrow>
             (let fm1 = Mapping.update old_freq l_old (freq_map c);
                  fm2 = Mapping.update new_freq
                          (list_push_front (lfu_alloc c) key (freq_at fm1 new_freq)) fm1;
                  entry' = (new_freq, list_begin (freq_at fm2 new_freq));
                  c' = c\<lparr>lfu_cache_map := Mapping.update key entry' (lfu_cache_map c),
                         freq_map := fm2, lfu_alloc := Suc (lfu_alloc c)\<rparr>
              in Inr (if freq_at fm2 old_freq = [] \<and> old_freq = min_frequency c
                      then c'\<lparr>min_frequency := new_freq\<rparr> else c')))"

definition LFU_access :: "LFUCache \<Rightarrow> key \<Rightarrow> fault + (event \<times> LFUCache)" where
  "LFU_access c key =
     (case Mapping.lookup (lfu_cache_map c) key of
        Some entry \<Rightarrow>
          (case update_frequency (c\<lparr>hits := hits c + 1\<rparr>) key entry of
             Inl f \<Rightarrow> Inl f
           | Inr c' \<Rightarrow> Inr (Hit, c'))
      | None \<Rightarrow>
          (case (if Mapping.size (lfu_cache_map c) \<ge> capacity c
                 then (let lfu_list = freq_at (freq_map c) (min_frequency c)
                       in case list_back lfu_list of
                            Inl f \<Rightarrow> Inl f
                          | Inr lfu_key \<Rightarrow>
                              (case list_pop_back lfu_list of
                                 Inl f \<Rightarrow> Inl f
                               | Inr l \<Rightarrow>
                                   Inr (Some lfu_key,
                                        Mapping.update (min_frequency c) l (freq_map c),
                                        Mapping.delete lfu_key (lfu_cache_map c))))
                 else Inr (None, freq_map c, lfu_cache_map c)) of
             Inl f \<Rightarrow> Inl f
           | Inr (evicted, fm, m) \<Rightarrow>
               (let new_freq = 1;
                    fm' = Mapping.update new_freq
                            (list_push_front (lfu_alloc c) key (freq_at fm new_freq)) fm
                in Inr (Miss evicted,
                        c\<lparr>misses := misses c + 1,
                          lfu_cache_map :=
                            Mapping.update key (new_freq, list_begin (freq_at fm' new_freq)) m,
                          freq_map := fm',
                          min_frequency := 1,
                          lfu_alloc := Suc (lfu_alloc c)\<rparr>))))"

definition LFU_print_stats :: "LFUCache \<Rightarrow> stats" where
  "LFU_print_stats c = print_stats_of (hits c) (misses c)"

section \<open>The simulator\<close>

text \<open>
  The simulator holds a pointer to the abstract policy; the object behind it is one of
  the three classes, and the virtual calls dispatch on it.
\<close>

datatype policy = LRU LRUCache | FIFO FIFOCache | LFU LFUCache

definition access :: "policy \<Rightarrow> key \<Rightarrow> fault + (event \<times> policy)" where
  "access p key =
     (case p of
        LRU c \<Rightarrow> map_sum id (map_prod id LRU) (LRU_access c key)
      | FIFO c \<Rightarrow> map_sum id (map_prod id FIFO) (FIFO_access c key)
      | LFU c \<Rightarrow> map_sum id (map_prod id LFU) (LFU_access c key))"

definition print_stats :: "policy \<Rightarrow> stats" where
  "print_stats p =
     (case p of
        LRU c \<Rightarrow> LRU_print_stats c
      | FIFO c \<Rightarrow> FIFO_print_stats c
      | LFU c \<Rightarrow> LFU_print_stats c)"

record CacheSimulator =
  cache :: policy
  access_sequence :: "key list"

definition CacheSimulator_init :: "nat \<Rightarrow> key list \<Rightarrow> string \<Rightarrow> CacheSimulator" where
  "CacheSimulator_init cap sequence policy_type =
     \<lparr>cache =
        (if policy_type = ''LRU'' then LRU (LRUCache_init cap)
         else if policy_type = ''FIFO'' then FIFO (FIFOCache_init cap)
         else if policy_type = ''LFU'' then LFU (LFUCache_init cap)
         else LRU (LRUCache_init cap)),
      access_sequence = sequence\<rparr>"

text \<open>The loop of \<^verbatim>\<open>run\<close>: every key of the sequence is accessed in order.\<close>

fun access_all :: "policy \<Rightarrow> key list \<Rightarrow> fault + (event list \<times> policy)" where
  "access_all p [] = Inr ([], p)"
| "access_all p (k # ks) =
     (case access p k of
        Inl f \<Rightarrow> Inl f
      | Inr (e, p') \<Rightarrow>
          (case access_all p' ks of
             Inl f \<Rightarrow> Inl f
           | Inr (es, p'') \<Rightarrow> Inr (e # es, p'')))"

text \<open>
  \<^verbatim>\<open>run\<close> yields the trace of the accesses, the statistics it prints at the end and
  the simulator with its policy object as the accesses left it.
\<close>

definition run :: "CacheSimulator \<Rightarrow> fault + (event list \<times> stats \<times> CacheSimulator)" where
  "run sim =
     (case access_all (cache sim) (access_sequence sim) of
        Inl f \<Rightarrow> Inl f
      | Inr (es, p) \<Rightarrow> Inr (es, print_stats p, sim\<lparr>cache := p\<rparr>))"

text \<open>The demonstration sequence of \<^verbatim>\<open>main\<close>, run with capacity 4.\<close>

definition accesses :: "key list" where
  "accesses = [''A'', ''B'', ''C'', ''D'', ''A'', ''E'', ''A'', ''B'', ''A'', ''C'',
               ''D'', ''E'', ''D'', ''C'']"

section \<open>Observations on a policy object\<close>

text \<open>
  The resident keys are the keys of the directory each policy looks a key up in: the
  \<^verbatim>\<open>cache_map\<close> of LRU and LFU and the \<^verbatim>\<open>cache_set\<close> of FIFO.
\<close>

definition resident :: "policy \<Rightarrow> key set" where
  "resident p =
     (case p of
        LRU c \<Rightarrow> Mapping.keys (cache_map c)
      | FIFO c \<Rightarrow> cache_set c
      | LFU c \<Rightarrow> Mapping.keys (lfu_cache_map c))"

text \<open>The size each policy compares with its capacity before it inserts a key.\<close>

definition resident_count :: "policy \<Rightarrow> nat" where
  "resident_count p =
     (case p of
        LRU c \<Rightarrow> length (lru_list c)
      | FIFO c \<Rightarrow> length (fifo_queue c)
      | LFU c \<Rightarrow> Mapping.size (lfu_cache_map c))"

definition base :: "policy \<Rightarrow> ICachePolicy" where
  "base p =
     (case p of
        LRU c \<Rightarrow> ICachePolicy.truncate c
      | FIFO c \<Rightarrow> ICachePolicy.truncate c
      | LFU c \<Rightarrow> ICachePolicy.truncate c)"

definition policy_kind :: "policy \<Rightarrow> string" where
  "policy_kind p = (case p of LRU c \<Rightarrow> ''LRU'' | FIFO c \<Rightarrow> ''FIFO'' | LFU c \<Rightarrow> ''LFU'')"

text \<open>The frequency the LFU directory records for a key.\<close>

definition frequency :: "LFUCache \<Rightarrow> key \<Rightarrow> cpp_int option" where
  "frequency c k = map_option fst (Mapping.lookup (lfu_cache_map c) k)"

text \<open>
  The LFU cache as a run leaves it, the key the cache then evicts when \<open>k\<close> is accessed,
  and the frequency it then records for \<open>k\<close>.
\<close>

definition LFU_after :: "nat \<Rightarrow> key list \<Rightarrow> LFUCache option" where
  "LFU_after cap ks =
     (case run (CacheSimulator_init cap ks ''LFU'') of
        Inl f \<Rightarrow> None
      | Inr (es, st, sim) \<Rightarrow> (case cache sim of LFU c \<Rightarrow> Some c | _ \<Rightarrow> None))"

definition victim_after :: "nat \<Rightarrow> key list \<Rightarrow> key \<Rightarrow> key option" where
  "victim_after cap ks k =
     (case LFU_after cap ks of
        None \<Rightarrow> None
      | Some c \<Rightarrow>
          (case LFU_access c k of
             Inr (Miss (Some v), c') \<Rightarrow> Some v
           | _ \<Rightarrow> None))"

definition frequency_after :: "nat \<Rightarrow> key list \<Rightarrow> key \<Rightarrow> cpp_int option" where
  "frequency_after cap ks k =
     (case LFU_after cap ks of None \<Rightarrow> None | Some c \<Rightarrow> frequency c k)"

text \<open>
  The position (counted from 1) of the last access to \<open>k\<close> in a sequence of accesses,
  0 when \<open>k\<close> was never accessed: a key was touched later the larger this number is.
\<close>

definition last_touch :: "key list \<Rightarrow> key \<Rightarrow> nat" where
  "last_touch tr k = length (dropWhile (\<lambda>x. x \<noteq> k) (rev tr))"

text \<open>The hit/miss pattern of a trace: \<open>True\<close> for a hit.\<close>

definition hit_miss_pattern :: "event list \<Rightarrow> bool list" where
  "hit_miss_pattern es = map (\<lambda>e. e = Hit) es"

text \<open>
  The demonstration of \<^verbatim>\<open>main\<close> under one policy: its hit/miss pattern and the keys
  resident at the end.
\<close>

definition demo :: "string \<Rightarrow> fault + (bool list \<times> key set)" where
  "demo policy_type =
     (case run (CacheSimulator_init 4 accesses policy_type) of
        Inl f \<Rightarrow> Inl f
      | Inr (es, st, sim) \<Rightarrow> Inr (hit_miss_pattern es, resident (cache sim)))"

section \<open>Representation invariants\<close>

text \<open>
  LRU: the list holds at most \<open>capacity\<close> nodes, with distinct keys, and the directory
  maps exactly the keys of the list, each to the iterator of its node.
\<close>

definition LRU_inv :: "LRUCache \<Rightarrow> bool" where
  "LRU_inv c \<longleftrightarrow>
     1 \<le> capacity c \<and> length (lru_list c) \<le> capacity c \<and>
     distinct (map fst (lru_list c)) \<and> distinct (map snd (lru_list c)) \<and>
     (\<forall>n \<in> set (lru_list c). fst n < lru_alloc c) \<and>
     (\<forall>k it. Mapping.lookup (cache_map c) k = Some it \<longleftrightarrow>
        (\<exists>a. it = Node a \<and> (a, k) \<in> set (lru_list c)))"

definition FIFO_inv :: "FIFOCache \<Rightarrow> bool" where
  "FIFO_inv c \<longleftrightarrow>
     1 \<le> capacity c \<and> length (fifo_queue c) \<le> capacity c \<and>
     distinct (fifo_queue c) \<and> set (fifo_queue c) = cache_set c"

text \<open>
  LFU: the directory maps exactly the keys held in the buckets, each to its bucket's
  frequency and the iterator of its node; the bucket of the minimum-frequency pointer
  is not empty unless the cache is.
\<close>

definition LFU_inv :: "LFUCache \<Rightarrow> bool" where
  "LFU_inv c \<longleftrightarrow>
     1 \<le> capacity c \<and> finite (Mapping.keys (lfu_cache_map c)) \<and>
     Mapping.size (lfu_cache_map c) \<le> capacity c \<and>
     (\<forall>f. distinct (map fst (freq_at (freq_map c) f)) \<and>
          distinct (map snd (freq_at (freq_map c) f)) \<and>
          (\<forall>n \<in> set (freq_at (freq_map c) f). fst n < lfu_alloc c)) \<and>
     (\<forall>k f it. Mapping.lookup (lfu_cache_map c) k = Some (f, it) \<longleftrightarrow>
        (\<exists>a. it = Node a \<and> (a, k) \<in> set (freq_at (freq_map c) f))) \<and>
     (Mapping.keys (lfu_cache_map c) \<noteq> {} \<longrightarrow>
        freq_at (freq_map c) (min_frequency c) \<noteq> [])"

text \<open>
  Within every bucket the keys stand from the most recently to the least recently
  touched one, \<open>tr\<close> being the accesses made so far.
\<close>

definition LFU_recency :: "key list \<Rightarrow> LFUCache \<Rightarrow> bool" where
  "LFU_recency tr c \<longleftrightarrow>
     (\<forall>f. sorted_wrt (\<lambda>a b. last_touch tr b < last_touch tr a)
            (list_keys (freq_at (freq_map c) f)))"

text \<open>
  As long as at most \<open>n\<close> accesses were made and \<open>n\<close> is below \<open>2^31\<close>, no frequency
  has wrapped around: every frequency is a number from 1 to \<open>n\<close>, and none is below
  the minimum-frequency pointer.
\<close>

definition LFU_order :: "nat \<Rightarrow> LFUCache \<Rightarrow> bool" where
  "LFU_order n c \<longleftrightarrow>
     (\<forall>k f it. Mapping.lookup (lfu_cache_map c) k = Some (f, it) \<longrightarrow>
        1 \<le> unat f \<and> unat f \<le> n \<and> unat (min_frequency c) \<le> unat f)"

definition policy_inv :: "policy \<Rightarrow> bool" where
  "policy_inv p =
     (case p of LRU c \<Rightarrow> LRU_inv c | FIFO c \<Rightarrow> FIFO_inv c | LFU c \<Rightarrow> LFU_inv c)"

section \<open>Lists of nodes\<close>

lemma find_node:
  "distinct (map fst l) \<Longrightarrow> (a, k) \<in> set l \<Longrightarrow> find (\<lambda>n. fst n = a) l = Some (a, k)"
  by (induction l) (auto simp: rev_image_eqI)

lemma filter_node_absent: "a \<notin> fst ` set l \<Longrightarrow> filter (\<lambda>n. fst n \<noteq> a) l = l"
  by (induction l) auto

lemma filter_key_absent: "k \<notin> snd ` set l \<Longrightarrow> filter (\<lambda>n. snd n \<noteq> k) l = l"
  by (induction l) auto

lemma filter_node_key:
  "distinct (map fst l) \<Longrightarrow> distinct (map snd l) \<Longrightarrow> (a, k) \<in> set l \<Longrightarrow>
   filter (\<lambda>n. fst n \<noteq> a) l = filter (\<lambda>n. snd n \<noteq> k) l"
proof (induction l)
  case Nil
  then show ?case by simp
next
  case (Cons n l)
  show ?case
  proof (cases "n = (a, k)")
    case True
    with Cons.prems have "a \<notin> fst ` set l" "k \<notin> snd ` set l" by auto
    then show ?thesis using True by (simp add: filter_node_absent filter_key_absent)
  next
    case False
    with Cons.prems have in_l: "(a, k) \<in> set l" by simp
    from in_l Cons.prems have "fst n \<noteq> a" "snd n \<noteq> k" by (auto simp: rev_image_eqI)
    moreover from Cons.IH Cons.prems in_l
    have "filter (\<lambda>n. fst n \<noteq> a) l = filter (\<lambda>n. snd n \<noteq> k) l" by simp
    ultimately show ?thesis by simp
  qed
qed

lemma set_filter_node:
  "distinct (map fst l) \<Longrightarrow> (a, k) \<in> set l \<Longrightarrow>
   set (filter (\<lambda>n. fst n \<noteq> a) l) = set l - {(a, k)}"
  by (induction l) (auto simp: rev_image_eqI)

lemma length_filter_node:
  "distinct (map fst l) \<Longrightarrow> (a, k) \<in> set l \<Longrightarrow>
   Suc (length (filter (\<lambda>n. fst n \<noteq> a) l)) = length l"
  by (induction l) (auto simp: rev_image_eqI filter_node_absent)

section \<open>One access preserves the invariant of each policy\<close>

subsection \<open>LRU\<close>

lemma mapping_update_same:
  "Mapping.lookup m k = Some v \<Longrightarrow> Mapping.update k v m = m"
  by (rule mapping_eqI) (auto simp: Mapping.lookup_update')

lemma LRU_hit:
  assumes "LRU_inv c" and "Mapping.lookup (cache_map c) k = Some it"
  shows "\<exists>a. it = Node a \<and> (a, k) \<in> set (lru_list c) \<and>
           LRU_access c k =
             Inr (Hit, c\<lparr>hits := hits c + 1,
                          lru_list := (a, k) # filter (\<lambda>n. snd n \<noteq> k) (lru_list c)\<rparr>)"
proof -
  from assms obtain a where a: "it = Node a" "(a, k) \<in> set (lru_list c)"
    unfolding LRU_inv_def by blast
  from assms(1) have d: "distinct (map fst (lru_list c))" "distinct (map snd (lru_list c))"
    unfolding LRU_inv_def by simp_all
  have f: "find (\<lambda>n. fst n = a) (lru_list c) = Some (a, k)"
    using d(1) a(2) by (rule find_node)
  have g: "filter (\<lambda>n. fst n \<noteq> a) (lru_list c) = filter (\<lambda>n. snd n \<noteq> k) (lru_list c)"
    using d a(2) by (rule filter_node_key)
  have "LRU_access c k =
     Inr (Hit, c\<lparr>hits := hits c + 1,
                  lru_list := (a, k) # filter (\<lambda>n. snd n \<noteq> k) (lru_list c)\<rparr>)"
    using assms(2) a(1) f g
    by (simp add: LRU_access_def list_splice_begin_def list_begin_def mapping_update_same)
  with a show ?thesis by blast
qed

lemma LRU_miss:
  assumes "LRU_inv c" and "Mapping.lookup (cache_map c) k = None"
  shows "LRU_access c k =
           (if capacity c \<le> length (lru_list c)
            then Inr (Miss (Some (snd (last (lru_list c)))),
                      c\<lparr>misses := misses c + 1,
                        lru_list := (lru_alloc c, k) # butlast (lru_list c),
                        cache_map := Mapping.update k (Node (lru_alloc c))
                                       (Mapping.delete (snd (last (lru_list c))) (cache_map c)),
                        lru_alloc := Suc (lru_alloc c)\<rparr>)
            else Inr (Miss None,
                      c\<lparr>misses := misses c + 1,
                        lru_list := (lru_alloc c, k) # lru_list c,
                        cache_map := Mapping.update k (Node (lru_alloc c)) (cache_map c),
                        lru_alloc := Suc (lru_alloc c)\<rparr>))"
proof -
  from assms(1) have "capacity c \<le> length (lru_list c) \<Longrightarrow> lru_list c \<noteq> []"
    unfolding LRU_inv_def by auto
  then show ?thesis
    using assms(2)
    by (simp add: LRU_access_def list_back_def list_pop_back_def list_push_front_def
        list_begin_def)
qed

lemma in_keys_lookup: "k \<in> Mapping.keys m \<longleftrightarrow> Mapping.lookup m k \<noteq> None"
  by (auto simp: keys_dom_lookup)

lemma butlast_last_split:
  "l \<noteq> [] \<Longrightarrow> set l = insert (last l) (set (butlast l))"
  by (metis append_butlast_last_id insert_is_Un list.simps(15) set_append sup_commute
      empty_set)

lemma last_key_not_in_butlast:
  "distinct (map snd l) \<Longrightarrow> l \<noteq> [] \<Longrightarrow> (a, snd (last l)) \<notin> set (butlast l)"
proof
  assume d: "distinct (map snd l)" and ne: "l \<noteq> []" and m: "(a, snd (last l)) \<in> set (butlast l)"
  from ne have "l = butlast l @ [last l]" by simp
  with d have "distinct (map snd (butlast l) @ [snd (last l)])"
    by (metis list.simps(8,9) map_append)
  then have "snd (last l) \<notin> snd ` set (butlast l)" by simp
  with m show False by (metis image_eqI snd_conv)
qed

lemma LRU_inv_hit:
  assumes inv: "LRU_inv c" and mem: "(a, k) \<in> set (lru_list c)"
  shows "LRU_inv (c\<lparr>hits := h, lru_list := (a, k) # filter (\<lambda>n. snd n \<noteq> k) (lru_list c)\<rparr>)"
proof -
  let ?l = "lru_list c"
  let ?l' = "(a, k) # filter (\<lambda>n. snd n \<noteq> k) ?l"
  from inv have d: "distinct (map fst ?l)" "distinct (map snd ?l)"
    unfolding LRU_inv_def by simp_all
  have g: "filter (\<lambda>n. snd n \<noteq> k) ?l = filter (\<lambda>n. fst n \<noteq> a) ?l"
    using filter_node_key [OF d mem] by simp
  have len: "length ?l' = length ?l"
    using length_filter_node [OF d(1) mem] g by simp
  have st: "set ?l' = set ?l"
    using set_filter_node [OF d(1) mem] mem g by auto
  have d1: "distinct (map fst ?l')"
    using d(1) by (auto simp: g distinct_map_filter)
  have d2: "distinct (map snd ?l')"
    using d(2) by (auto simp: distinct_map_filter)
  from inv have rest: "1 \<le> capacity c" "length ?l \<le> capacity c"
    "\<forall>n \<in> set ?l. fst n < lru_alloc c"
    "\<forall>k it. Mapping.lookup (cache_map c) k = Some it \<longleftrightarrow> (\<exists>a. it = Node a \<and> (a, k) \<in> set ?l)"
    unfolding LRU_inv_def by simp_all
  show ?thesis
    unfolding LRU_inv_def
    using rest d1 d2 len st by simp
qed

lemma LRU_inv_insert:
  assumes cap: "1 \<le> capacity c" and len: "Suc (length l) \<le> capacity c"
    and d1: "distinct (map fst l)" and d2: "distinct (map snd l)"
    and fr: "\<forall>n \<in> set l. fst n < lru_alloc c"
    and dir: "\<forall>x it. Mapping.lookup m x = Some it \<longleftrightarrow> (\<exists>a. it = Node a \<and> (a, x) \<in> set l)"
    and new: "Mapping.lookup m k = None"
  shows "LRU_inv (c\<lparr>misses := ms, lru_list := (lru_alloc c, k) # l,
                    cache_map := Mapping.update k (Node (lru_alloc c)) m,
                    lru_alloc := Suc (lru_alloc c)\<rparr>)"
proof -
  from new dir have nk: "\<forall>a. (a, k) \<notin> set l" by (metis option.distinct(1))
  then have "k \<notin> snd ` set l" by auto
  moreover from fr have "lru_alloc c \<notin> fst ` set l" by auto
  moreover from fr have "\<forall>n \<in> set l. fst n < Suc (lru_alloc c)" by auto
  moreover have "\<forall>x it. Mapping.lookup (Mapping.update k (Node (lru_alloc c)) m) x = Some it \<longleftrightarrow>
      (\<exists>a. it = Node a \<and> (a, x) \<in> set ((lru_alloc c, k) # l))"
    using dir nk by (auto simp: Mapping.lookup_update')
  ultimately show ?thesis
    unfolding LRU_inv_def using cap len d1 d2 by simp
qed

lemma LRU_step:
  assumes inv: "LRU_inv c"
  shows "\<exists>e c'. LRU_access c k = Inr (e, c') \<and> LRU_inv c' \<and>
           (e = Hit \<longleftrightarrow> k \<in> Mapping.keys (cache_map c)) \<and>
           capacity c' = capacity c \<and> k \<in> Mapping.keys (cache_map c') \<and>
           (k \<in> Mapping.keys (cache_map c) \<longrightarrow>
              hits c' = hits c + 1 \<and> misses c' = misses c \<and>
              Mapping.keys (cache_map c') = Mapping.keys (cache_map c)) \<and>
           (k \<notin> Mapping.keys (cache_map c) \<longrightarrow>
              hits c' = hits c \<and> misses c' = misses c + 1)"
proof (cases "Mapping.lookup (cache_map c) k")
  case (Some it)
  then have mem: "k \<in> Mapping.keys (cache_map c)" by (simp add: in_keys_lookup)
  from LRU_hit [OF inv Some] obtain a where a: "(a, k) \<in> set (lru_list c)"
    and acc: "LRU_access c k =
       Inr (Hit, c\<lparr>hits := hits c + 1,
                    lru_list := (a, k) # filter (\<lambda>n. snd n \<noteq> k) (lru_list c)\<rparr>)"
    by blast
  from LRU_inv_hit [OF inv a] acc mem show ?thesis by simp
next
  case None
  then have nmem: "k \<notin> Mapping.keys (cache_map c)" by (simp add: in_keys_lookup)
  let ?l = "lru_list c"
  from inv have facts: "1 \<le> capacity c" "length ?l \<le> capacity c"
    "distinct (map fst ?l)" "distinct (map snd ?l)"
    "\<forall>n \<in> set ?l. fst n < lru_alloc c"
    and dir: "\<forall>x it. Mapping.lookup (cache_map c) x = Some it \<longleftrightarrow> (\<exists>a. it = Node a \<and> (a, x) \<in> set ?l)"
    unfolding LRU_inv_def by simp_all
  show ?thesis
  proof (cases "capacity c \<le> length ?l")
    case True
    with facts have ne: "?l \<noteq> []" by auto
    let ?v = "snd (last ?l)"
    let ?m = "Mapping.delete ?v (cache_map c)"
    have sp: "set ?l = insert (last ?l) (set (butlast ?l))" using ne by (rule butlast_last_split)
    have nv: "\<forall>a. (a, ?v) \<notin> set (butlast ?l)"
      using last_key_not_in_butlast [OF facts(4) ne] by simp
    have dir': "\<forall>x it. Mapping.lookup ?m x = Some it \<longleftrightarrow> (\<exists>a. it = Node a \<and> (a, x) \<in> set (butlast ?l))"
    proof (intro allI)
      fix x it
      show "Mapping.lookup ?m x = Some it \<longleftrightarrow> (\<exists>a. it = Node a \<and> (a, x) \<in> set (butlast ?l))"
      proof (cases "x = ?v")
        case True
        with nv show ?thesis by simp
      next
        case False
        then have "\<And>a. (a, x) \<in> set ?l \<longleftrightarrow> (a, x) \<in> set (butlast ?l)"
          using sp by (metis insert_iff snd_conv)
        with False dir show ?thesis by simp
      qed
    qed
    have new: "Mapping.lookup ?m k = None"
      using None by (cases "k = ?v") simp_all
    have "LRU_inv (c\<lparr>misses := misses c + 1, lru_list := (lru_alloc c, k) # butlast ?l,
                    cache_map := Mapping.update k (Node (lru_alloc c)) ?m,
                    lru_alloc := Suc (lru_alloc c)\<rparr>)"
    proof (rule LRU_inv_insert [OF facts(1) _ _ _ _ dir' new])
      show "Suc (length (butlast ?l)) \<le> capacity c" using ne facts(2) by simp
      show "distinct (map fst (butlast ?l))" using facts(3) by (simp add: distinct_butlast map_butlast)
      show "distinct (map snd (butlast ?l))" using facts(4) by (simp add: distinct_butlast map_butlast)
      show "\<forall>n \<in> set (butlast ?l). fst n < lru_alloc c" using facts(5) by (meson in_set_butlastD)
    qed
    with LRU_miss [OF inv None] True nmem show ?thesis by simp
  next
    case False
    then have "Suc (length ?l) \<le> capacity c" by simp
    from LRU_inv_insert [OF facts(1) this facts(3) facts(4) facts(5) dir None]
      LRU_miss [OF inv None] False nmem
    show ?thesis by simp
  qed
qed

subsection \<open>FIFO\<close>

lemma FIFO_hit:
  "k \<in> cache_set c \<Longrightarrow> FIFO_access c k = Inr (Hit, c\<lparr>hits := hits c + 1\<rparr>)"
  by (simp add: FIFO_access_def)

lemma FIFO_miss:
  assumes "FIFO_inv c" and "k \<notin> cache_set c"
  shows "FIFO_access c k =
           (if capacity c \<le> length (fifo_queue c)
            then Inr (Miss (Some (hd (fifo_queue c))),
                      c\<lparr>misses := misses c + 1,
                        fifo_queue := tl (fifo_queue c) @ [k],
                        cache_set := insert k (cache_set c - {hd (fifo_queue c)})\<rparr>)
            else Inr (Miss None,
                      c\<lparr>misses := misses c + 1,
                        fifo_queue := fifo_queue c @ [k],
                        cache_set := insert k (cache_set c)\<rparr>))"
proof -
  from assms(1) have "capacity c \<le> length (fifo_queue c) \<Longrightarrow> fifo_queue c \<noteq> []"
    unfolding FIFO_inv_def by auto
  then show ?thesis
    using assms(2)
    by (cases "fifo_queue c")
       (auto simp: FIFO_access_def queue_front_def queue_pop_def queue_push_def)
qed

lemma FIFO_step:
  assumes inv: "FIFO_inv c"
  shows "\<exists>e c'. FIFO_access c k = Inr (e, c') \<and> FIFO_inv c' \<and>
           (e = Hit \<longleftrightarrow> k \<in> cache_set c) \<and>
           capacity c' = capacity c \<and> k \<in> cache_set c' \<and>
           (k \<in> cache_set c \<longrightarrow>
              hits c' = hits c + 1 \<and> misses c' = misses c \<and> cache_set c' = cache_set c) \<and>
           (k \<notin> cache_set c \<longrightarrow> hits c' = hits c \<and> misses c' = misses c + 1)"
proof (cases "k \<in> cache_set c")
  case True
  moreover from inv have "FIFO_inv (c\<lparr>hits := hits c + 1\<rparr>)"
    by (simp add: FIFO_inv_def)
  ultimately show ?thesis by (simp add: FIFO_hit)
next
  case False
  let ?q = "fifo_queue c"
  from inv have facts: "1 \<le> capacity c" "length ?q \<le> capacity c" "distinct ?q"
    "set ?q = cache_set c"
    unfolding FIFO_inv_def by simp_all
  show ?thesis
  proof (cases "capacity c \<le> length ?q")
    case True
    with facts obtain x q where q: "?q = x # q" by (cases ?q) auto
    have "FIFO_inv (c\<lparr>misses := misses c + 1, fifo_queue := tl ?q @ [k],
                      cache_set := insert k (cache_set c - {hd ?q})\<rparr>)"
      unfolding FIFO_inv_def using facts False q by auto
    with FIFO_miss [OF inv False] True False show ?thesis by simp
  next
    case F: False
    have "FIFO_inv (c\<lparr>misses := misses c + 1, fifo_queue := ?q @ [k],
                      cache_set := insert k (cache_set c)\<rparr>)"
      unfolding FIFO_inv_def using facts False F by auto
    with FIFO_miss [OF inv False] F False show ?thesis by simp
  qed
qed

subsection \<open>LFU\<close>

lemma freq_at_update:
  "freq_at (Mapping.update f l fm) g = (if f = g then l else freq_at fm g)"
  by (simp add: freq_at_def lookup_default_update')

lemma freq_at_empty: "freq_at Mapping.empty g = []"
  by (simp add: freq_at_def lookup_default_empty)

lemma LFU_hit:
  assumes inv: "LFU_inv c" and look: "Mapping.lookup (lfu_cache_map c) k = Some (f, it)"
  shows "\<exists>a c'. it = Node a \<and> (a, k) \<in> set (freq_at (freq_map c) f) \<and>
           LFU_access c k = Inr (Hit, c') \<and>
           capacity c' = capacity c \<and> hits c' = hits c + 1 \<and> misses c' = misses c \<and>
           lfu_cache_map c' = Mapping.update k (f + 1, Node (lfu_alloc c)) (lfu_cache_map c) \<and>
           (\<forall>g. freq_at (freq_map c') g =
                  (if g = f + 1 then (lfu_alloc c, k) # freq_at (freq_map c) (f + 1)
                   else if g = f then filter (\<lambda>n. snd n \<noteq> k) (freq_at (freq_map c) f)
                   else freq_at (freq_map c) g)) \<and>
           lfu_alloc c' = Suc (lfu_alloc c) \<and>
           min_frequency c' =
             (if filter (\<lambda>n. snd n \<noteq> k) (freq_at (freq_map c) f) = [] \<and> f = min_frequency c
              then f + 1 else min_frequency c)"
proof -
  let ?l = "freq_at (freq_map c) f"
  from inv look obtain a where a: "it = Node a" "(a, k) \<in> set ?l"
    unfolding LFU_inv_def by blast
  from inv have d: "distinct (map fst ?l)" "distinct (map snd ?l)"
    unfolding LFU_inv_def by simp_all
  have fnd: "find (\<lambda>n. fst n = a) ?l = Some (a, k)"
    using d(1) a(2) by (rule find_node)
  have flt: "filter (\<lambda>n. fst n \<noteq> a) ?l = filter (\<lambda>n. snd n \<noteq> k) ?l"
    using d a(2) by (rule filter_node_key)
  have er: "list_erase ?l (Node a) = Inr (filter (\<lambda>n. snd n \<noteq> k) ?l)"
    using fnd flt by (simp add: list_erase_def)
  show ?thesis
    using look a er
    by (auto simp: LFU_access_def update_frequency_def Let_def freq_at_update
        list_push_front_def list_begin_def)
qed

lemma LFU_miss:
  assumes inv: "LFU_inv c" and look: "Mapping.lookup (lfu_cache_map c) k = None"
  shows "\<exists>e c' B m. LFU_access c k = Inr (Miss e, c') \<and>
           (if capacity c \<le> Mapping.size (lfu_cache_map c)
            then freq_at (freq_map c) (min_frequency c) \<noteq> [] \<and>
                 e = Some (snd (last (freq_at (freq_map c) (min_frequency c)))) \<and>
                 B = (\<lambda>g. if g = min_frequency c
                          then butlast (freq_at (freq_map c) (min_frequency c))
                          else freq_at (freq_map c) g) \<and>
                 m = Mapping.delete (snd (last (freq_at (freq_map c) (min_frequency c))))
                       (lfu_cache_map c)
            else e = None \<and> B = freq_at (freq_map c) \<and> m = lfu_cache_map c) \<and>
           capacity c' = capacity c \<and> hits c' = hits c \<and> misses c' = misses c + 1 \<and>
           lfu_cache_map c' = Mapping.update k (1, Node (lfu_alloc c)) m \<and>
           (\<forall>g. freq_at (freq_map c') g = (if g = 1 then (lfu_alloc c, k) # B 1 else B g)) \<and>
           lfu_alloc c' = Suc (lfu_alloc c) \<and> min_frequency c' = 1"
proof (cases "capacity c \<le> Mapping.size (lfu_cache_map c)")
  case True
  from inv have "1 \<le> capacity c" unfolding LFU_inv_def by simp
  with True have "Mapping.keys (lfu_cache_map c) \<noteq> {}"
    by (auto simp: Mapping.size_def)
  with inv have ne: "freq_at (freq_map c) (min_frequency c) \<noteq> []"
    unfolding LFU_inv_def by simp
  show ?thesis
    using look True ne
    by (simp add: LFU_access_def Let_def freq_at_update list_back_def list_pop_back_def
        list_push_front_def list_begin_def)
next
  case False
  then show ?thesis
    using look
    by (simp add: LFU_access_def Let_def freq_at_update list_push_front_def list_begin_def)
qed

lemma LFU_inv_hit:
  assumes inv: "LFU_inv c"
    and look: "Mapping.lookup (lfu_cache_map c) k = Some (f, Node a)"
    and cap: "capacity c' = capacity c"
    and cm': "lfu_cache_map c' = Mapping.update k (f + 1, Node (lfu_alloc c)) (lfu_cache_map c)"
    and fm': "\<forall>g. freq_at (freq_map c') g =
                  (if g = f + 1 then (lfu_alloc c, k) # freq_at (freq_map c) (f + 1)
                   else if g = f then filter (\<lambda>n. snd n \<noteq> k) (freq_at (freq_map c) f)
                   else freq_at (freq_map c) g)"
    and al: "lfu_alloc c' = Suc (lfu_alloc c)"
    and mf: "min_frequency c' =
             (if filter (\<lambda>n. snd n \<noteq> k) (freq_at (freq_map c) f) = [] \<and> f = min_frequency c
              then f + 1 else min_frequency c)"
  shows "LFU_inv c'"
proof -
  let ?B = "freq_at (freq_map c)"
  let ?B' = "freq_at (freq_map c')"
  let ?cm = "lfu_cache_map c"
  from inv have c1: "1 \<le> capacity c" and fin: "finite (Mapping.keys ?cm)"
    and sz: "Mapping.size ?cm \<le> capacity c"
    and bk1: "\<And>g. distinct (map fst (?B g))" and bk2: "\<And>g. distinct (map snd (?B g))"
    and bk3: "\<And>g n. n \<in> set (?B g) \<Longrightarrow> fst n < lfu_alloc c"
    and dir: "\<And>x g it. Mapping.lookup ?cm x = Some (g, it) \<longleftrightarrow>
                (\<exists>a. it = Node a \<and> (a, x) \<in> set (?B g))"
    and ne: "Mapping.keys ?cm \<noteq> {} \<Longrightarrow> ?B (min_frequency c) \<noteq> []"
    unfolding LFU_inv_def by blast+
  have kmem: "k \<in> Mapping.keys ?cm" using look by (simp add: in_keys_lookup)
  have nk: "g = f \<and> a' = a" if "(a', k) \<in> set (?B g)" for g a'
    using that dir [of k g "Node a'"] look by simp
  have other: "(a', x) \<in> set (?B' g) \<longleftrightarrow> (a', x) \<in> set (?B g)" if "x \<noteq> k" for a' x g
    using that fm' by auto
  have p1: "1 \<le> capacity c'" using c1 cap by simp
  have p2: "finite (Mapping.keys (lfu_cache_map c'))" using fin cm' by simp
  have p3: "Mapping.size (lfu_cache_map c') \<le> capacity c'"
    using sz cap cm' kmem fin by (simp add: Mapping.size_update)
  have p4: "distinct (map fst (?B' g)) \<and> distinct (map snd (?B' g)) \<and>
            (\<forall>n \<in> set (?B' g). fst n < lfu_alloc c')" for g
  proof -
    consider "g = f + 1" | "g = f" | "g \<noteq> f + 1" "g \<noteq> f" by blast
    then show ?thesis
    proof cases
      case 1
      have "lfu_alloc c \<notin> fst ` set (?B (f + 1))" using bk3 by fastforce
      moreover have "k \<notin> snd ` set (?B (f + 1))" using nk by fastforce
      moreover have "\<forall>n \<in> set (?B (f + 1)). fst n < Suc (lfu_alloc c)"
        using bk3 less_Suc_eq by blast
      ultimately show ?thesis using 1 fm' al bk1 bk2 by simp
    next
      case 2
      have "\<forall>n \<in> set (?B f). fst n < Suc (lfu_alloc c)" using bk3 less_Suc_eq by blast
      then show ?thesis using 2 fm' al bk1 bk2 by (simp add: distinct_map_filter)
    next
      case 3
      have "\<forall>n \<in> set (?B g). fst n < Suc (lfu_alloc c)" using bk3 less_Suc_eq by blast
      then show ?thesis using 3 fm' al bk1 bk2 by simp
    qed
  qed
  have p5: "Mapping.lookup (lfu_cache_map c') x = Some (g, it) \<longleftrightarrow>
            (\<exists>a. it = Node a \<and> (a, x) \<in> set (?B' g))" for x g it
  proof (cases "x = k")
    case True
    have "(a', k) \<in> set (?B' g) \<longleftrightarrow> g = f + 1 \<and> a' = lfu_alloc c" for a'
      using fm' nk by auto
    then show ?thesis using True cm' by auto
  next
    case False
    then show ?thesis using cm' dir other by simp
  qed
  have p7: "?B' (min_frequency c') \<noteq> []"
  proof (cases "filter (\<lambda>n. snd n \<noteq> k) (?B f) = [] \<and> f = min_frequency c")
    case True
    then show ?thesis using mf fm' by simp
  next
    case False
    from ne kmem have old: "?B (min_frequency c) \<noteq> []" by auto
    from False mf have m: "min_frequency c' = min_frequency c" by simp
    consider "min_frequency c = f + 1" | "min_frequency c = f" "min_frequency c \<noteq> f + 1"
      | "min_frequency c \<noteq> f" "min_frequency c \<noteq> f + 1" by blast
    then show ?thesis
    proof cases
      case 1
      with m fm' show ?thesis by simp
    next
      case 2
      with False m fm' show ?thesis by simp
    next
      case 3
      with old m fm' show ?thesis by simp
    qed
  qed
  show ?thesis
    unfolding LFU_inv_def using p1 p2 p3 p4 p5 p7 by blast
qed

lemma LFU_inv_insert:
  assumes c1: "1 \<le> capacity c'" and fin: "finite (Mapping.keys m)"
    and sz: "Suc (Mapping.size m) \<le> capacity c'"
    and bk1: "\<And>g. distinct (map fst (B g))" and bk2: "\<And>g. distinct (map snd (B g))"
    and bk3: "\<And>g n. n \<in> set (B g) \<Longrightarrow> fst n < al"
    and dir: "\<And>x g it. Mapping.lookup m x = Some (g, it) \<longleftrightarrow>
                (\<exists>a. it = Node a \<and> (a, x) \<in> set (B g))"
    and new: "Mapping.lookup m k = None"
    and cm': "lfu_cache_map c' = Mapping.update k (1, Node al) m"
    and fm': "\<forall>g. freq_at (freq_map c') g = (if g = 1 then (al, k) # B 1 else B g)"
    and al': "lfu_alloc c' = Suc al" and mf: "min_frequency c' = 1"
  shows "LFU_inv c'"
proof -
  let ?B' = "freq_at (freq_map c')"
  have nk: "(a', k) \<notin> set (B g)" for g a'
    using dir [of k g "Node a'"] new by simp
  have knew: "k \<notin> Mapping.keys m" using new by (simp add: in_keys_lookup)
  have p2: "finite (Mapping.keys (lfu_cache_map c'))" using fin cm' by simp
  have p3: "Mapping.size (lfu_cache_map c') \<le> capacity c'"
    using sz cm' knew fin by (simp add: Mapping.size_update)
  have p4: "distinct (map fst (?B' g)) \<and> distinct (map snd (?B' g)) \<and>
            (\<forall>n \<in> set (?B' g). fst n < lfu_alloc c')" for g
  proof (cases "g = 1")
    case True
    have "al \<notin> fst ` set (B 1)" using bk3 by fastforce
    moreover have "k \<notin> snd ` set (B 1)" using nk by fastforce
    moreover have "\<forall>n \<in> set (B 1). fst n < Suc al" using bk3 less_Suc_eq by blast
    ultimately show ?thesis using True fm' al' bk1 bk2 by simp
  next
    case False
    have "\<forall>n \<in> set (B g). fst n < Suc al" using bk3 less_Suc_eq by blast
    then show ?thesis using False fm' al' bk1 bk2 by simp
  qed
  have p5: "Mapping.lookup (lfu_cache_map c') x = Some (g, it) \<longleftrightarrow>
            (\<exists>a. it = Node a \<and> (a, x) \<in> set (?B' g))" for x g it
  proof (cases "x = k")
    case True
    have "(a', k) \<in> set (?B' g) \<longleftrightarrow> g = 1 \<and> a' = al" for a'
      using fm' nk by auto
    then show ?thesis using True cm' by auto
  next
    case False
    then have "(a', x) \<in> set (?B' g) \<longleftrightarrow> (a', x) \<in> set (B g)" for a'
      using fm' by auto
    then show ?thesis using False cm' dir by simp
  qed
  have p7: "?B' (min_frequency c') \<noteq> []" using mf fm' by simp
  show ?thesis
    unfolding LFU_inv_def using c1 p2 p3 p4 p5 p7 by blast
qed

lemma LFU_evict_facts:
  assumes inv: "LFU_inv c" and full: "capacity c \<le> Mapping.size (lfu_cache_map c)"
  defines "l \<equiv> freq_at (freq_map c) (min_frequency c)"
  assumes B_def: "B = (\<lambda>g. if g = min_frequency c then butlast l else freq_at (freq_map c) g)"
  assumes m_def: "m = Mapping.delete (snd (last l)) (lfu_cache_map c)"
  shows "l \<noteq> []"
    and "\<exists>a. Mapping.lookup (lfu_cache_map c) (snd (last l)) = Some (min_frequency c, Node a)"
    and "finite (Mapping.keys m)" and "Suc (Mapping.size m) \<le> capacity c"
    and "\<And>g. distinct (map fst (B g))" and "\<And>g. distinct (map snd (B g))"
    and "\<And>g n. n \<in> set (B g) \<Longrightarrow> fst n < lfu_alloc c"
    and "\<And>x g it. Mapping.lookup m x = Some (g, it) \<longleftrightarrow>
                (\<exists>a. it = Node a \<and> (a, x) \<in> set (B g))"
proof -
  let ?B = "freq_at (freq_map c)"
  let ?cm = "lfu_cache_map c"
  let ?v = "snd (last l)"
  from inv have c1: "1 \<le> capacity c" and fin: "finite (Mapping.keys ?cm)"
    and sz: "Mapping.size ?cm \<le> capacity c"
    and bk1: "\<And>g. distinct (map fst (?B g))" and bk2: "\<And>g. distinct (map snd (?B g))"
    and bk3: "\<And>g n. n \<in> set (?B g) \<Longrightarrow> fst n < lfu_alloc c"
    and dir: "\<And>x g it. Mapping.lookup ?cm x = Some (g, it) \<longleftrightarrow>
                (\<exists>a. it = Node a \<and> (a, x) \<in> set (?B g))"
    and ne: "Mapping.keys ?cm \<noteq> {} \<Longrightarrow> ?B (min_frequency c) \<noteq> []"
    unfolding LFU_inv_def by blast+
  from c1 full have "Mapping.keys ?cm \<noteq> {}" by (auto simp: Mapping.size_def)
  with ne show lne: "l \<noteq> []" by (simp add: l_def)
  then have "(fst (last l), ?v) \<in> set (?B (min_frequency c))"
    by (simp add: l_def)
  with dir have lv: "Mapping.lookup ?cm ?v = Some (min_frequency c, Node (fst (last l)))"
    by blast
  then show "\<exists>a. Mapping.lookup ?cm ?v = Some (min_frequency c, Node a)" by blast
  from lv have vk: "?v \<in> Mapping.keys ?cm" by (simp add: in_keys_lookup)
  show "finite (Mapping.keys m)" using fin by (simp add: m_def)
  from vk fin have "0 < Mapping.size ?cm" by (auto simp: Mapping.size_def card_gt_0_iff)
  with vk sz show "Suc (Mapping.size m) \<le> capacity c"
    by (simp add: m_def Mapping.size_delete)
  show "distinct (map fst (B g))" for g
    using bk1 [of g] bk1 [of "min_frequency c"]
    by (simp add: B_def l_def distinct_butlast map_butlast)
  show "distinct (map snd (B g))" for g
    using bk2 [of g] bk2 [of "min_frequency c"]
    by (simp add: B_def l_def distinct_butlast map_butlast)
  show "fst n < lfu_alloc c" if "n \<in> set (B g)" for g n
    using that bk3 [of n g] bk3 [of n "min_frequency c"]
    by (auto simp: B_def l_def dest: in_set_butlastD split: if_splits)
  have sp: "set l = insert (last l) (set (butlast l))" using lne by (rule butlast_last_split)
  have nv: "(a, ?v) \<notin> set (B g)" for a g
  proof (cases "g = min_frequency c")
    case True
    then show ?thesis
      using last_key_not_in_butlast [OF _ lne, of a] bk2 [of "min_frequency c"]
      by (simp add: B_def l_def)
  next
    case False
    have "(a, ?v) \<notin> set (?B g)"
    proof
      assume "(a, ?v) \<in> set (?B g)"
      with dir have "Mapping.lookup ?cm ?v = Some (g, Node a)" by blast
      with lv False show False by simp
    qed
    with False show ?thesis by (simp add: B_def)
  qed
  have keep: "(a, x) \<in> set (B g) \<longleftrightarrow> (a, x) \<in> set (?B g)" if "x \<noteq> ?v" for a x g
  proof (cases "g = min_frequency c")
    case True
    from that have "(a, x) \<in> set l \<longleftrightarrow> (a, x) \<in> set (butlast l)"
      using sp by (metis insert_iff snd_conv)
    with True show ?thesis by (simp add: B_def l_def)
  next
    case False
    then show ?thesis by (simp add: B_def)
  qed
  show dir': "Mapping.lookup m x = Some (g, it) \<longleftrightarrow>
        (\<exists>a. it = Node a \<and> (a, x) \<in> set (B g))" for x g it
  proof (cases "x = ?v")
    case True
    with nv show ?thesis by (simp add: m_def)
  next
    case False
    with dir keep show ?thesis by (simp add: m_def)
  qed
qed

lemma LFU_step:
  assumes inv: "LFU_inv c"
  shows "\<exists>e c'. LFU_access c k = Inr (e, c') \<and> LFU_inv c' \<and>
           (e = Hit \<longleftrightarrow> k \<in> Mapping.keys (lfu_cache_map c)) \<and>
           capacity c' = capacity c \<and> k \<in> Mapping.keys (lfu_cache_map c') \<and>
           (k \<in> Mapping.keys (lfu_cache_map c) \<longrightarrow>
              hits c' = hits c + 1 \<and> misses c' = misses c \<and>
              Mapping.keys (lfu_cache_map c') = Mapping.keys (lfu_cache_map c)) \<and>
           (k \<notin> Mapping.keys (lfu_cache_map c) \<longrightarrow>
              hits c' = hits c \<and> misses c' = misses c + 1)"
proof (cases "Mapping.lookup (lfu_cache_map c) k")
  case (Some entry)
  obtain f it where entry: "entry = (f, it)" by (cases entry)
  with Some have look: "Mapping.lookup (lfu_cache_map c) k = Some (f, it)" by simp
  then have mem: "k \<in> Mapping.keys (lfu_cache_map c)" by (simp add: in_keys_lookup)
  from LFU_hit [OF inv look] obtain a c' where it: "it = Node a"
    and acc: "LFU_access c k = Inr (Hit, c')"
    and cap: "capacity c' = capacity c" and h: "hits c' = hits c + 1" "misses c' = misses c"
    and cm': "lfu_cache_map c' = Mapping.update k (f + 1, Node (lfu_alloc c)) (lfu_cache_map c)"
    and fm': "\<forall>g. freq_at (freq_map c') g =
                  (if g = f + 1 then (lfu_alloc c, k) # freq_at (freq_map c) (f + 1)
                   else if g = f then filter (\<lambda>n. snd n \<noteq> k) (freq_at (freq_map c) f)
                   else freq_at (freq_map c) g)"
    and al: "lfu_alloc c' = Suc (lfu_alloc c)"
    and mf: "min_frequency c' =
             (if filter (\<lambda>n. snd n \<noteq> k) (freq_at (freq_map c) f) = [] \<and> f = min_frequency c
              then f + 1 else min_frequency c)"
    by blast
  from look it have look': "Mapping.lookup (lfu_cache_map c) k = Some (f, Node a)" by simp
  have "LFU_inv c'" by (rule LFU_inv_hit [OF inv look' cap cm' fm' al mf])
  moreover have "Mapping.keys (lfu_cache_map c') = Mapping.keys (lfu_cache_map c)"
    using cm' mem by auto
  ultimately show ?thesis using acc cap h mem by simp
next
  case None
  then have nmem: "k \<notin> Mapping.keys (lfu_cache_map c)" by (simp add: in_keys_lookup)
  from LFU_miss [OF inv None] obtain e c' B m where
    acc: "LFU_access c k = Inr (Miss e, c')"
    and sel: "if capacity c \<le> Mapping.size (lfu_cache_map c)
            then freq_at (freq_map c) (min_frequency c) \<noteq> [] \<and>
                 e = Some (snd (last (freq_at (freq_map c) (min_frequency c)))) \<and>
                 B = (\<lambda>g. if g = min_frequency c
                          then butlast (freq_at (freq_map c) (min_frequency c))
                          else freq_at (freq_map c) g) \<and>
                 m = Mapping.delete (snd (last (freq_at (freq_map c) (min_frequency c))))
                       (lfu_cache_map c)
            else e = None \<and> B = freq_at (freq_map c) \<and> m = lfu_cache_map c"
    and cap: "capacity c' = capacity c" and h: "hits c' = hits c" "misses c' = misses c + 1"
    and cm': "lfu_cache_map c' = Mapping.update k (1, Node (lfu_alloc c)) m"
    and fm': "\<forall>g. freq_at (freq_map c') g = (if g = 1 then (lfu_alloc c, k) # B 1 else B g)"
    and al: "lfu_alloc c' = Suc (lfu_alloc c)" and mf: "min_frequency c' = 1"
    by blast
  from inv have c1: "1 \<le> capacity c'" using cap unfolding LFU_inv_def by simp
  have "LFU_inv c'"
  proof (cases "capacity c \<le> Mapping.size (lfu_cache_map c)")
    case True
    with sel have B: "B = (\<lambda>g. if g = min_frequency c
                          then butlast (freq_at (freq_map c) (min_frequency c))
                          else freq_at (freq_map c) g)"
      and m: "m = Mapping.delete (snd (last (freq_at (freq_map c) (min_frequency c))))
                       (lfu_cache_map c)"
      by simp_all
    note ev = LFU_evict_facts [OF inv True B m]
    have new: "Mapping.lookup m k = None"
      using None by (cases "k = snd (last (freq_at (freq_map c) (min_frequency c)))")
        (simp_all add: m)
    show ?thesis
      by (rule LFU_inv_insert [OF c1 ev(3) _ ev(5) ev(6) ev(7) ev(8) new cm' fm' al mf])
        (use ev(4) cap in simp)
  next
    case False
    with sel have B: "B = freq_at (freq_map c)" and m: "m = lfu_cache_map c" by simp_all
    from inv have fin: "finite (Mapping.keys m)"
      and bk1: "\<And>g. distinct (map fst (B g))" and bk2: "\<And>g. distinct (map snd (B g))"
      and bk3: "\<And>g n. n \<in> set (B g) \<Longrightarrow> fst n < lfu_alloc c"
      and dir: "\<And>x g it. Mapping.lookup m x = Some (g, it) \<longleftrightarrow>
                (\<exists>a. it = Node a \<and> (a, x) \<in> set (B g))"
      unfolding LFU_inv_def B m by blast+
    from False have sz: "Suc (Mapping.size m) \<le> capacity c'" using cap m by simp
    have new: "Mapping.lookup m k = None" using None m by simp
    show ?thesis
      by (rule LFU_inv_insert [OF c1 fin sz bk1 bk2 bk3 dir new cm' fm' al mf])
  qed
  moreover have "k \<in> Mapping.keys (lfu_cache_map c')" using cm' by simp
  ultimately show ?thesis using acc cap h nmem by simp
qed

section \<open>Every state the simulator reaches satisfies the invariants\<close>

lemma base_simps:
  "capacity (base (LRU a)) = capacity a" "hits (base (LRU a)) = hits a"
  "misses (base (LRU a)) = misses a"
  "capacity (base (FIFO b)) = capacity b" "hits (base (FIFO b)) = hits b"
  "misses (base (FIFO b)) = misses b"
  "capacity (base (LFU d)) = capacity d" "hits (base (LFU d)) = hits d"
  "misses (base (LFU d)) = misses d"
  by (simp_all add: base_def ICachePolicy.truncate_def)

lemma access_step:
  assumes inv: "policy_inv p"
  shows "\<exists>e p'. access p k = Inr (e, p') \<and> policy_inv p' \<and>
           policy_kind p' = policy_kind p \<and>
           (e = Hit \<longleftrightarrow> k \<in> resident p) \<and>
           capacity (base p') = capacity (base p) \<and> k \<in> resident p' \<and>
           (k \<in> resident p \<longrightarrow>
              hits (base p') = hits (base p) + 1 \<and> misses (base p') = misses (base p) \<and>
              resident p' = resident p) \<and>
           (k \<notin> resident p \<longrightarrow>
              hits (base p') = hits (base p) \<and> misses (base p') = misses (base p) + 1)"
proof (cases p)
  case (LRU c)
  with inv have "LRU_inv c" by (simp add: policy_inv_def)
  from LRU_step [OF this, of k] show ?thesis
    unfolding LRU by (auto simp: access_def policy_inv_def policy_kind_def resident_def base_simps)
next
  case (FIFO c)
  with inv have "FIFO_inv c" by (simp add: policy_inv_def)
  from FIFO_step [OF this, of k] show ?thesis
    unfolding FIFO by (auto simp: access_def policy_inv_def policy_kind_def resident_def base_simps)
next
  case (LFU c)
  with inv have "LFU_inv c" by (simp add: policy_inv_def)
  from LFU_step [OF this, of k] show ?thesis
    unfolding LFU by (auto simp: access_def policy_inv_def policy_kind_def resident_def base_simps)
qed

lemma LRU_inv_keys:
  assumes "LRU_inv c"
  shows "Mapping.keys (cache_map c) = set (list_keys (lru_list c))"
proof -
  from assms have dir: "\<And>k it. Mapping.lookup (cache_map c) k = Some it \<longleftrightarrow>
        (\<exists>a. it = Node a \<and> (a, k) \<in> set (lru_list c))"
    unfolding LRU_inv_def by blast
  show ?thesis
  proof (intro set_eqI iffI)
    fix k assume "k \<in> Mapping.keys (cache_map c)"
    then obtain it where "Mapping.lookup (cache_map c) k = Some it"
      by (auto simp: in_keys_lookup)
    with dir obtain a where "(a, k) \<in> set (lru_list c)" by blast
    then show "k \<in> set (list_keys (lru_list c))" by (force simp: list_keys_def)
  next
    fix k assume "k \<in> set (list_keys (lru_list c))"
    then obtain a where "(a, k) \<in> set (lru_list c)" by (auto simp: list_keys_def)
    with dir have "Mapping.lookup (cache_map c) k = Some (Node a)" by blast
    then show "k \<in> Mapping.keys (cache_map c)" by (simp add: in_keys_lookup)
  qed
qed

lemma policy_inv_count:
  assumes inv: "policy_inv p"
  shows "finite (resident p) \<and> card (resident p) = resident_count p \<and>
         resident_count p \<le> capacity (base p) \<and> 1 \<le> capacity (base p)"
proof (cases p)
  case (LRU c)
  with inv have i: "LRU_inv c" by (simp add: policy_inv_def)
  then have d: "distinct (list_keys (lru_list c))" and b: "length (lru_list c) \<le> capacity c"
    "1 \<le> capacity c"
    unfolding LRU_inv_def list_keys_def by simp_all
  from distinct_card [OF d] have "card (set (list_keys (lru_list c))) = length (lru_list c)"
    by (simp add: list_keys_def)
  with LRU_inv_keys [OF i] b show ?thesis
    unfolding LRU by (simp add: resident_def resident_count_def base_simps)
next
  case (FIFO c)
  with inv have "FIFO_inv c" by (simp add: policy_inv_def)
  then have b: "1 \<le> capacity c" "length (fifo_queue c) \<le> capacity c"
    and d: "distinct (fifo_queue c)" and s: "cache_set c = set (fifo_queue c)"
    unfolding FIFO_inv_def by simp_all
  from distinct_card [OF d] b s show ?thesis
    unfolding FIFO by (simp add: resident_def resident_count_def base_simps)
next
  case (LFU c)
  with inv have "LFU_inv c" by (simp add: policy_inv_def)
  then have "1 \<le> capacity c" "finite (Mapping.keys (lfu_cache_map c))"
    "Mapping.size (lfu_cache_map c) \<le> capacity c"
    unfolding LFU_inv_def by simp_all
  then show ?thesis
    unfolding LFU by (simp add: resident_def resident_count_def base_simps Mapping.size_def)
qed

lemma access_all_inv:
  assumes "policy_inv p"
  shows "\<exists>es p' a b. access_all p ks = Inr (es, p') \<and> policy_inv p' \<and>
           policy_kind p' = policy_kind p \<and> length es = length ks \<and>
           capacity (base p') = capacity (base p) \<and> a + b = length ks \<and>
           hits (base p') = hits (base p) + of_nat a \<and>
           misses (base p') = misses (base p) + of_nat b"
  using assms
proof (induction ks arbitrary: p)
  case Nil
  then show ?case by simp
next
  case (Cons k ks)
  from access_step [OF Cons.prems, of k] obtain e p1 where
    s: "access p k = Inr (e, p1)" "policy_inv p1" "policy_kind p1 = policy_kind p"
      "capacity (base p1) = capacity (base p)"
    and cnt: "if k \<in> resident p
              then hits (base p1) = hits (base p) + 1 \<and> misses (base p1) = misses (base p)
              else hits (base p1) = hits (base p) \<and> misses (base p1) = misses (base p) + 1"
    by (cases "k \<in> resident p") auto
  from Cons.IH [OF s(2)] obtain es p2 a b where
    r: "access_all p1 ks = Inr (es, p2)" "policy_inv p2" "policy_kind p2 = policy_kind p1"
      "length es = length ks" "capacity (base p2) = capacity (base p1)"
    and ab: "a + b = length ks" "hits (base p2) = hits (base p1) + of_nat a"
      "misses (base p2) = misses (base p1) + of_nat b"
    by blast
  have acc: "access_all p (k # ks) = Inr (e # es, p2)" using s(1) r(1) by simp
  show ?case
  proof (cases "k \<in> resident p")
    case True
    with cnt ab have "Suc a + b = length (k # ks)"
      "hits (base p2) = hits (base p) + of_nat (Suc a)"
      "misses (base p2) = misses (base p) + of_nat b"
      by simp_all
    with acc s r show ?thesis by (metis length_Cons)
  next
    case False
    with cnt ab have "a + Suc b = length (k # ks)"
      "hits (base p2) = hits (base p) + of_nat a"
      "misses (base p2) = misses (base p) + of_nat (Suc b)"
      by simp_all
    with acc s r show ?thesis by (metis length_Cons)
  qed
qed

lemma access_all_append:
  "access_all p (xs @ ys) =
     (case access_all p xs of
        Inl f \<Rightarrow> Inl f
      | Inr (es, p') \<Rightarrow>
          (case access_all p' ys of
             Inl f \<Rightarrow> Inl f
           | Inr (es', p'') \<Rightarrow> Inr (es @ es', p'')))"
  by (induction xs arbitrary: p) (auto split: sum.splits)

lemma init_inv:
  "policy_inv (cache (CacheSimulator_init cap ks ty))"
  "capacity (base (cache (CacheSimulator_init cap ks ty))) = (if cap = 0 then 1 else cap)"
  "hits (base (cache (CacheSimulator_init cap ks ty))) = 0"
  "misses (base (cache (CacheSimulator_init cap ks ty))) = 0"
  "resident (cache (CacheSimulator_init cap ks ty)) = {}"
  "access_sequence (CacheSimulator_init cap ks ty) = ks"
  by (auto simp: CacheSimulator_init_def policy_inv_def LRU_inv_def FIFO_inv_def LFU_inv_def
      LRUCache_init_def FIFOCache_init_def LFUCache_init_def ICachePolicy_init_def
      ICachePolicy.extend_def LRUCache.fields_def FIFOCache.fields_def LFUCache.fields_def
      base_simps resident_def freq_at_empty Let_def)

lemma init_kind:
  "policy_kind (cache (CacheSimulator_init cap ks ty)) =
     (if ty = ''FIFO'' then ''FIFO'' else if ty = ''LFU'' then ''LFU'' else ''LRU'')"
  by (simp add: CacheSimulator_init_def policy_kind_def)

lemma run_reach:
  "\<exists>es p a b. run (CacheSimulator_init cap ks ty) =
             Inr (es, print_stats p, CacheSimulator_init cap ks ty\<lparr>cache := p\<rparr>) \<and>
          access_all (cache (CacheSimulator_init cap ks ty)) ks = Inr (es, p) \<and>
          policy_inv p \<and> length es = length ks \<and>
          policy_kind p = policy_kind (cache (CacheSimulator_init cap ks ty)) \<and>
          capacity (base p) = (if cap = 0 then 1 else cap) \<and>
          a + b = length ks \<and> hits (base p) = of_nat a \<and> misses (base p) = of_nat b"
proof -
  from access_all_inv [OF init_inv(1), of cap ks ty ks] obtain es p a b where
    "access_all (cache (CacheSimulator_init cap ks ty)) ks = Inr (es, p)" "policy_inv p"
    "policy_kind p = policy_kind (cache (CacheSimulator_init cap ks ty))"
    "length es = length ks"
    "capacity (base p) = capacity (base (cache (CacheSimulator_init cap ks ty)))"
    "a + b = length ks"
    "hits (base p) = hits (base (cache (CacheSimulator_init cap ks ty))) + of_nat a"
    "misses (base p) = misses (base (cache (CacheSimulator_init cap ks ty))) + of_nat b"
    by blast
  then have "run (CacheSimulator_init cap ks ty) =
             Inr (es, print_stats p, CacheSimulator_init cap ks ty\<lparr>cache := p\<rparr>) \<and>
          access_all (cache (CacheSimulator_init cap ks ty)) ks = Inr (es, p) \<and>
          policy_inv p \<and> length es = length ks \<and>
          policy_kind p = policy_kind (cache (CacheSimulator_init cap ks ty)) \<and>
          capacity (base p) = (if cap = 0 then 1 else cap) \<and>
          a + b = length ks \<and> hits (base p) = of_nat a \<and> misses (base p) = of_nat b"
    by (simp add: run_def init_inv)
  then show ?thesis by blast
qed

text \<open>Numbers below \<open>2^31\<close> are read back from a 32-bit word as they are.\<close>

lemma sint_of_nat_small:
  "n < 2147483648 \<Longrightarrow> sint (of_nat n :: cpp_int) = int n"
  by (simp add: signed_of_nat signed_take_bit_int_eq_self)

lemma kind_FIFO: "policy_kind p = ''FIFO'' \<Longrightarrow> \<exists>c. p = FIFO c"
  by (cases p) (simp_all add: policy_kind_def)

lemma kind_LFU: "policy_kind p = ''LFU'' \<Longrightarrow> \<exists>c. p = LFU c"
  by (cases p) (simp_all add: policy_kind_def)




lemma count_list_distinct:
  "distinct xs \<Longrightarrow> count_list xs x = (if x \<in> set xs then 1 else 0)"
  by (induction xs) auto

lemma LFU_inv_buckets:
  assumes inv: "LFU_inv c"
  shows "(\<forall>k f it. Mapping.lookup (lfu_cache_map c) k = Some (f, it) \<longrightarrow>
            (\<forall>g. count_list (list_keys (freq_at (freq_map c) g)) k = (if g = f then 1 else 0)))"
    and "(\<forall>g k. k \<in> set (list_keys (freq_at (freq_map c) g)) \<longrightarrow> frequency c k = Some g)"
proof -
  let ?B = "freq_at (freq_map c)"
  from inv have bk2: "\<And>g. distinct (list_keys (?B g))"
    and dir: "\<And>x g it. Mapping.lookup (lfu_cache_map c) x = Some (g, it) \<longleftrightarrow>
                (\<exists>a. it = Node a \<and> (a, x) \<in> set (?B g))"
    unfolding LFU_inv_def list_keys_def by blast+
  have mem: "k \<in> set (list_keys (?B g)) \<longleftrightarrow> (\<exists>a. Mapping.lookup (lfu_cache_map c) k = Some (g, Node a))"
    for k g
    using dir [of k g] by (force simp: list_keys_def)
  show "\<forall>k f it. Mapping.lookup (lfu_cache_map c) k = Some (f, it) \<longrightarrow>
            (\<forall>g. count_list (list_keys (?B g)) k = (if g = f then 1 else 0))"
  proof (intro allI impI)
    fix k f it g
    assume l: "Mapping.lookup (lfu_cache_map c) k = Some (f, it)"
    with dir obtain a where "it = Node a" by blast
    with l have "k \<in> set (list_keys (?B g)) \<longleftrightarrow> g = f" using mem [of k g] by auto
    then show "count_list (list_keys (?B g)) k = (if g = f then 1 else 0)"
      using count_list_distinct [OF bk2, of g k] by simp
  qed
  show "\<forall>g k. k \<in> set (list_keys (?B g)) \<longrightarrow> frequency c k = Some g"
    using mem by (auto simp: frequency_def)
qed

section \<open>Recency order inside the LFU buckets\<close>

lemma last_touch_le: "last_touch tr x \<le> length tr"
  unfolding last_touch_def by (metis length_dropWhile_le length_rev)

lemma last_touch_snoc_same: "last_touch (tr @ [k]) k = Suc (length tr)"
  by (simp add: last_touch_def)

lemma last_touch_snoc_other: "x \<noteq> k \<Longrightarrow> last_touch (tr @ [k]) x = last_touch tr x"
  by (simp add: last_touch_def)

lemma recency_keep:
  assumes "k \<notin> set xs"
    and "sorted_wrt (\<lambda>a b. last_touch tr b < last_touch tr a) xs"
  shows "sorted_wrt (\<lambda>a b. last_touch (tr @ [k]) b < last_touch (tr @ [k]) a) xs"
proof (rule sorted_wrt_mono_rel [OF _ assms(2)])
  fix x y assume "x \<in> set xs" "y \<in> set xs" "last_touch tr y < last_touch tr x"
  with assms(1) show "last_touch (tr @ [k]) y < last_touch (tr @ [k]) x"
    by (metis last_touch_snoc_other)
qed

lemma recency_front:
  assumes "k \<notin> set xs"
    and "sorted_wrt (\<lambda>a b. last_touch tr b < last_touch tr a) xs"
  shows "sorted_wrt (\<lambda>a b. last_touch (tr @ [k]) b < last_touch (tr @ [k]) a) (k # xs)"
proof -
  have "last_touch (tr @ [k]) x < last_touch (tr @ [k]) k" if "x \<in> set xs" for x
  proof -
    from that assms(1) have "x \<noteq> k" by blast
    then show ?thesis
      using last_touch_le [of tr x] by (simp add: last_touch_snoc_same last_touch_snoc_other)
  qed
  with recency_keep [OF assms] show ?thesis by simp
qed

lemma sorted_wrt_butlast: "sorted_wrt P xs \<Longrightarrow> sorted_wrt P (butlast xs)"
  by (simp add: butlast_conv_take sorted_wrt_take)

lemma sorted_wrt_last:
  assumes "sorted_wrt P xs" and "x \<in> set (butlast xs)"
  shows "P x (last xs)"
proof -
  from assms(2) have "xs \<noteq> []" by auto
  then have "xs = butlast xs @ [last xs]" by simp
  with assms(1) have "sorted_wrt P (butlast xs @ [last xs])" by simp
  with assms(2) show ?thesis by (simp add: sorted_wrt_append)
qed

lemma list_keys_filter:
  "list_keys (filter (\<lambda>n. snd n \<noteq> k) l) = filter (\<lambda>x. x \<noteq> k) (list_keys l)"
  by (simp add: list_keys_def filter_map comp_def)

lemma LFU_inv_key_bucket:
  assumes "LFU_inv c"
  shows "k \<in> set (list_keys (freq_at (freq_map c) g)) \<longleftrightarrow>
         (\<exists>a. Mapping.lookup (lfu_cache_map c) k = Some (g, Node a))"
proof -
  from assms have dir: "\<And>x g it. Mapping.lookup (lfu_cache_map c) x = Some (g, it) \<longleftrightarrow>
                (\<exists>a. it = Node a \<and> (a, x) \<in> set (freq_at (freq_map c) g))"
    unfolding LFU_inv_def by blast
  show ?thesis using dir [of k g] by (force simp: list_keys_def)
qed

lemma LFU_recency_step:
  assumes inv: "LFU_inv c" and rec: "LFU_recency tr c"
    and acc: "LFU_access c k = Inr (e, c')"
  shows "LFU_recency (tr @ [k]) c'"
proof -
  let ?B = "freq_at (freq_map c)"
  let ?R = "\<lambda>a b. last_touch tr b < last_touch tr a"
  let ?R' = "\<lambda>a b. last_touch (tr @ [k]) b < last_touch (tr @ [k]) a"
  from rec have srt: "\<And>g. sorted_wrt ?R (list_keys (?B g))"
    unfolding LFU_recency_def by blast
  show ?thesis
  proof (cases "Mapping.lookup (lfu_cache_map c) k")
    case (Some entry)
    obtain f it where "entry = (f, it)" by (cases entry)
    with Some have look: "Mapping.lookup (lfu_cache_map c) k = Some (f, it)" by simp
    from LFU_hit [OF inv look] obtain c0 where
      acc0: "LFU_access c k = Inr (Hit, c0)"
      and fm0: "\<forall>g. freq_at (freq_map c0) g =
                  (if g = f + 1 then (lfu_alloc c, k) # ?B (f + 1)
                   else if g = f then filter (\<lambda>n. snd n \<noteq> k) (?B f)
                   else ?B g)"
      by blast
    from acc acc0 have "c0 = c'" by simp
    with fm0 have
      fm': "\<And>g. freq_at (freq_map c') g =
                  (if g = f + 1 then (lfu_alloc c, k) # ?B (f + 1)
                   else if g = f then filter (\<lambda>n. snd n \<noteq> k) (?B f)
                   else ?B g)"
      by blast
    have nk: "k \<notin> set (list_keys (?B g))" if "g \<noteq> f" for g
      using that LFU_inv_key_bucket [OF inv, of k g] look by auto
    have "sorted_wrt ?R' (list_keys (freq_at (freq_map c') g))" for g
    proof -
      consider "g = f + 1" | "g = f" | "g \<noteq> f + 1" "g \<noteq> f" by blast
      then show ?thesis
      proof cases
        case 1
        have "k \<notin> set (list_keys (?B (f + 1)))" by (rule nk) simp
        from recency_front [OF this srt] 1 fm' show ?thesis by (simp add: list_keys_def)
      next
        case 2
        have "sorted_wrt ?R' (filter (\<lambda>x. x \<noteq> k) (list_keys (?B f)))"
          by (rule recency_keep) (simp_all add: sorted_wrt_filter srt)
        with 2 fm' show ?thesis by (simp add: list_keys_filter)
      next
        case 3
        from recency_keep [OF nk [OF 3(2)] srt] 3 fm' show ?thesis by simp
      qed
    qed
    then show ?thesis unfolding LFU_recency_def by blast
  next
    case None
    from LFU_miss [OF inv None] obtain e0 c0 B m where
      acc0: "LFU_access c k = Inr (Miss e0, c0)"
      and sel0: "if capacity c \<le> Mapping.size (lfu_cache_map c)
            then ?B (min_frequency c) \<noteq> [] \<and>
                 e0 = Some (snd (last (?B (min_frequency c)))) \<and>
                 B = (\<lambda>g. if g = min_frequency c then butlast (?B (min_frequency c))
                          else ?B g) \<and>
                 m = Mapping.delete (snd (last (?B (min_frequency c)))) (lfu_cache_map c)
            else e0 = None \<and> B = ?B \<and> m = lfu_cache_map c"
      and fm0: "\<forall>g. freq_at (freq_map c0) g = (if g = 1 then (lfu_alloc c, k) # B 1 else B g)"
      by blast
    from acc acc0 have "c0 = c'" by simp
    with fm0 have
      fm': "\<And>g. freq_at (freq_map c') g = (if g = 1 then (lfu_alloc c, k) # B 1 else B g)"
      by blast
    from sel0 have
      sel: "if capacity c \<le> Mapping.size (lfu_cache_map c)
            then B = (\<lambda>g. if g = min_frequency c then butlast (?B (min_frequency c)) else ?B g)
            else B = ?B"
      by (simp split: if_splits)
    have nk0: "k \<notin> set (list_keys (?B g))" for g
      using LFU_inv_key_bucket [OF inv, of k g] None by simp
    have sub: "set (list_keys (B g)) \<subseteq> set (list_keys (?B g))" for g
      using sel by (auto simp: list_keys_def dest: in_set_butlastD split: if_splits)
    have nk: "k \<notin> set (list_keys (B g))" for g
      using nk0 sub by blast
    have srtB: "sorted_wrt ?R (list_keys (B g))" for g
      using sel srt [of g] sorted_wrt_butlast [OF srt, of "min_frequency c"]
      by (auto simp: list_keys_def map_butlast split: if_splits)
    have "sorted_wrt ?R' (list_keys (freq_at (freq_map c') g))" for g
    proof (cases "g = 1")
      case True
      from recency_front [OF nk srtB, of 1] True fm' show ?thesis by (simp add: list_keys_def)
    next
      case False
      from recency_keep [OF nk srtB, of g] False fm' show ?thesis by simp
    qed
    then show ?thesis unfolding LFU_recency_def by blast
  qed
qed

lemma LFU_access_all_recency:
  assumes "LFU_inv c" and "LFU_recency tr c"
  shows "\<exists>es c'. access_all (LFU c) ks = Inr (es, LFU c') \<and> LFU_inv c' \<and>
           LFU_recency (tr @ ks) c'"
  using assms
proof (induction ks arbitrary: c tr)
  case Nil
  then show ?case by simp
next
  case (Cons k ks)
  from LFU_step [OF Cons.prems(1), of k] obtain e c1 where
    s: "LFU_access c k = Inr (e, c1)" "LFU_inv c1"
    by blast
  from LFU_recency_step [OF Cons.prems s(1)] have r1: "LFU_recency (tr @ [k]) c1" .
  from Cons.IH [OF s(2) r1] obtain es c2 where
    "access_all (LFU c1) ks = Inr (es, LFU c2)" "LFU_inv c2" "LFU_recency ((tr @ [k]) @ ks) c2"
    by blast
  with s(1) show ?case by (simp add: access_def)
qed

lemma LFU_init_recency:
  "LFU_inv (LFUCache_init cap)" "LFU_recency [] (LFUCache_init cap)"
  by (auto simp: LFU_inv_def LFU_recency_def LFUCache_init_def ICachePolicy_init_def
      ICachePolicy.extend_def LFUCache.fields_def freq_at_empty list_keys_def Let_def)

lemma not_in_keys_lookup: "k \<notin> Mapping.keys m \<Longrightarrow> Mapping.lookup m k = None"
  using in_keys_lookup [of k m] by blast

lemma unat_succ_small:
  "unat f \<le> n \<Longrightarrow> n < 2147483647 \<Longrightarrow> unat (f + 1 :: cpp_int) = Suc (unat f)"
  by (simp add: unat_add_lem [THEN iffD1])

lemma sint_unat_small:
  assumes "unat (w :: cpp_int) < 2147483648"
  shows "sint w = int (unat w)"
proof -
  have "sint (of_nat (unat w) :: cpp_int) = int (unat w)"
    using assms by (rule sint_of_nat_small)
  then show ?thesis by simp
qed

lemma LFU_order_step:
  assumes inv: "LFU_inv c" and ord: "LFU_order n c" and n: "n < 2147483647"
    and acc: "LFU_access c k = Inr (e, c')"
  shows "LFU_order (Suc n) c'"
proof (cases "Mapping.lookup (lfu_cache_map c) k")
  case (Some entry)
  obtain f it where "entry = (f, it)" by (cases entry)
  with Some have look: "Mapping.lookup (lfu_cache_map c) k = Some (f, it)" by simp
  let ?old = "filter (\<lambda>n. snd n \<noteq> k) (freq_at (freq_map c) f)"
  from LFU_hit [OF inv look] obtain c0 where
    acc0: "LFU_access c k = Inr (Hit, c0)"
    and cm0: "lfu_cache_map c0 = Mapping.update k (f + 1, Node (lfu_alloc c)) (lfu_cache_map c)"
    and mf0: "min_frequency c0 =
             (if ?old = [] \<and> f = min_frequency c then f + 1 else min_frequency c)"
    by blast
  from acc acc0 have "c0 = c'" by simp
  with cm0 mf0 have
    cm': "lfu_cache_map c' = Mapping.update k (f + 1, Node (lfu_alloc c)) (lfu_cache_map c)"
    and mf: "min_frequency c' =
             (if ?old = [] \<and> f = min_frequency c then f + 1 else min_frequency c)"
    by simp_all
  from ord look have kf: "1 \<le> unat f" "unat f \<le> n" "unat (min_frequency c) \<le> unat f"
    unfolding LFU_order_def by blast+
  from unat_succ_small [OF kf(2) n] have uf: "unat (f + 1) = Suc (unat f)" .
  from inv have dir: "\<And>x g it. Mapping.lookup (lfu_cache_map c) x = Some (g, it) \<longleftrightarrow>
                (\<exists>a. it = Node a \<and> (a, x) \<in> set (freq_at (freq_map c) g))"
    unfolding LFU_inv_def by blast
  have "1 \<le> unat g \<and> unat g \<le> Suc n \<and> unat (min_frequency c') \<le> unat g"
    if l': "Mapping.lookup (lfu_cache_map c') x = Some (g, it')" for x g it'
  proof (cases "x = k")
    case True
    with l' cm' have "g = f + 1" by simp
    with uf kf mf show ?thesis by auto
  next
    case False
    with l' cm' have l: "Mapping.lookup (lfu_cache_map c) x = Some (g, it')" by simp
    with ord have xg: "1 \<le> unat g" "unat g \<le> n" "unat (min_frequency c) \<le> unat g"
      unfolding LFU_order_def by blast+
    show ?thesis
    proof (cases "?old = [] \<and> f = min_frequency c")
      case True
      from l dir obtain a' where "(a', x) \<in> set (freq_at (freq_map c) g)" by blast
      with False True have "g \<noteq> f"
        by (metis (mono_tags, lifting) empty_filter_conv snd_conv)
      then have "unat g \<noteq> unat f" by (simp add: word_unat_eq_iff)
      with xg(3) True have "Suc (unat f) \<le> unat g" by simp
      with True mf uf xg show ?thesis by simp
    next
      case F: False
      with mf have "min_frequency c' = min_frequency c" by auto
      with xg show ?thesis by simp
    qed
  qed
  then show ?thesis unfolding LFU_order_def by blast
next
  case None
  let ?B = "freq_at (freq_map c)"
  from LFU_miss [OF inv None] obtain e0 c0 B m where
    acc0: "LFU_access c k = Inr (Miss e0, c0)"
    and sel0: "if capacity c \<le> Mapping.size (lfu_cache_map c)
            then ?B (min_frequency c) \<noteq> [] \<and>
                 e0 = Some (snd (last (?B (min_frequency c)))) \<and>
                 B = (\<lambda>g. if g = min_frequency c then butlast (?B (min_frequency c))
                          else ?B g) \<and>
                 m = Mapping.delete (snd (last (?B (min_frequency c)))) (lfu_cache_map c)
            else e0 = None \<and> B = ?B \<and> m = lfu_cache_map c"
    and cm0: "lfu_cache_map c0 = Mapping.update k (1, Node (lfu_alloc c)) m"
    and mf0: "min_frequency c0 = 1"
    by blast
  from acc acc0 have "c0 = c'" by simp
  with cm0 mf0 have cm': "lfu_cache_map c' = Mapping.update k (1, Node (lfu_alloc c)) m"
    and mf: "min_frequency c' = 1"
    by simp_all
  have sub: "Mapping.lookup (lfu_cache_map c) x = Some (g, it')"
    if "Mapping.lookup m x = Some (g, it')" for x g it'
  proof (cases "capacity c \<le> Mapping.size (lfu_cache_map c)")
    case True
    with sel0 have m: "m = Mapping.delete (snd (last (?B (min_frequency c)))) (lfu_cache_map c)"
      by simp
    show ?thesis
      using that unfolding m
      by (cases "x = snd (last (?B (min_frequency c)))") simp_all
  next
    case False
    with sel0 that show ?thesis by simp
  qed
  have "1 \<le> unat g \<and> unat g \<le> Suc n \<and> unat (min_frequency c') \<le> unat g"
    if l': "Mapping.lookup (lfu_cache_map c') x = Some (g, it')" for x g it'
  proof (cases "x = k")
    case True
    with l' cm' have "g = 1" by simp
    with mf show ?thesis by simp
  next
    case False
    with l' cm' have "Mapping.lookup m x = Some (g, it')" by simp
    from sub [OF this] ord have "1 \<le> unat g" "unat g \<le> n"
      unfolding LFU_order_def by blast+
    with mf show ?thesis by simp
  qed
  then show ?thesis unfolding LFU_order_def by blast
qed

lemma LFU_access_all_order:
  assumes "LFU_inv c" and "LFU_order n c" and "n + length ks < 2147483648"
    and "access_all (LFU c) ks = Inr (es, LFU c')"
  shows "LFU_order (n + length ks) c'"
  using assms
proof (induction ks arbitrary: c n es)
  case Nil
  then show ?case by simp
next
  case (Cons k ks)
  from LFU_step [OF Cons.prems(1), of k] obtain e c1 where
    s: "LFU_access c k = Inr (e, c1)" "LFU_inv c1"
    by blast
  from Cons.prems(3) have n: "n < 2147483647" by simp
  from LFU_order_step [OF Cons.prems(1,2) n s(1)] have o1: "LFU_order (Suc n) c1" .
  from s(1) have a1: "access (LFU c) k = Inr (e, LFU c1)" by (simp add: access_def)
  with Cons.prems(4) obtain es' where
    r: "access_all (LFU c1) ks = Inr (es', LFU c')"
    by (auto split: sum.splits)
  from Cons.prems(3) have "Suc n + length ks < 2147483648" by simp
  from Cons.IH [OF s(2) o1 this r] show ?case by simp
qed

lemma LFU_init_order: "LFU_order 0 (LFUCache_init cap)"
  by (simp add: LFU_order_def LFUCache_init_def ICachePolicy.extend_def LFUCache.fields_def)

lemma LFU_eviction_victim:
  assumes inv: "LFU_inv c" and rec: "LFU_recency tr c"
    and new: "k \<notin> Mapping.keys (lfu_cache_map c)"
    and full: "Mapping.size (lfu_cache_map c) = capacity c"
  shows "\<exists>v fv c'. LFU_access c k = Inr (Miss (Some v), c') \<and> frequency c v = Some fv \<and>
           Mapping.keys (lfu_cache_map c') = insert k (Mapping.keys (lfu_cache_map c) - {v}) \<and>
           (\<forall>k' fk. frequency c k' = Some fk \<longrightarrow>
              (fk = fv \<and> k' \<noteq> v \<longrightarrow> last_touch tr v < last_touch tr k') \<and>
              (LFU_order n c \<and> n < 2147483648 \<longrightarrow> sint fv \<le> sint fk))"
proof -
  let ?l = "freq_at (freq_map c) (min_frequency c)"
  let ?v = "snd (last ?l)"
  from new have none: "Mapping.lookup (lfu_cache_map c) k = None"
    using in_keys_lookup [of k "lfu_cache_map c"] by blast
  from full have cap: "capacity c \<le> Mapping.size (lfu_cache_map c)" by simp
  from LFU_miss [OF inv none] cap obtain c' where
    acc: "LFU_access c k = Inr (Miss (Some ?v), c')"
    and cm': "lfu_cache_map c' =
                Mapping.update k (1, Node (lfu_alloc c)) (Mapping.delete ?v (lfu_cache_map c))"
    by auto
  from LFU_evict_facts(1,2) [OF inv cap refl refl] obtain a where
    ne: "?l \<noteq> []" and lv: "Mapping.lookup (lfu_cache_map c) ?v = Some (min_frequency c, Node a)"
    by blast
  from lv have fv: "frequency c ?v = Some (min_frequency c)" by (simp add: frequency_def)
  from cm' have keys: "Mapping.keys (lfu_cache_map c') =
      insert k (Mapping.keys (lfu_cache_map c) - {?v})"
    by simp
  from rec have srt: "sorted_wrt (\<lambda>a b. last_touch tr b < last_touch tr a) (list_keys ?l)"
    unfolding LFU_recency_def by blast
  have lastk: "last (list_keys ?l) = ?v" using ne by (simp add: list_keys_def last_map)
  have "(fk = min_frequency c \<and> k' \<noteq> ?v \<longrightarrow> last_touch tr ?v < last_touch tr k') \<and>
        (LFU_order n c \<and> n < 2147483648 \<longrightarrow> sint (min_frequency c) \<le> sint fk)"
    if fq: "frequency c k' = Some fk" for k' fk
  proof -
    from fq obtain it where l: "Mapping.lookup (lfu_cache_map c) k' = Some (fk, it)"
      by (auto simp: frequency_def)
    have "last_touch tr ?v < last_touch tr k'" if "fk = min_frequency c" "k' \<noteq> ?v"
    proof -
      from inv l obtain a' where "it = Node a'" unfolding LFU_inv_def by blast
      with l that(1) have "k' \<in> set (list_keys ?l)"
        using LFU_inv_key_bucket [OF inv, of k' "min_frequency c"] by auto
      moreover have "list_keys ?l = butlast (list_keys ?l) @ [?v]"
        using ne lastk by (metis append_butlast_last_id list_keys_def map_is_Nil_conv)
      ultimately have "k' \<in> set (butlast (list_keys ?l))"
        using that(2) by (metis Un_iff empty_iff insert_iff list.simps(15) set_append set_empty)
      from sorted_wrt_last [OF srt this] lastk show ?thesis by simp
    qed
    moreover have "sint (min_frequency c) \<le> sint fk" if o: "LFU_order n c" "n < 2147483648"
    proof -
      from o(1) l have "unat fk \<le> n" "unat (min_frequency c) \<le> unat fk"
        unfolding LFU_order_def by blast+
      with o(2) have b: "unat fk < 2147483648" "unat (min_frequency c) < 2147483648"
        and le: "unat (min_frequency c) \<le> unat fk"
        by simp_all
      from le have "int (unat (min_frequency c)) \<le> int (unat fk)" by (simp only: of_nat_le_iff)
      then show ?thesis by (simp only: sint_unat_small [OF b(1)] sint_unat_small [OF b(2)])
    qed
    ultimately show ?thesis by blast
  qed
  with acc fv keys show ?thesis by blast
qed

text \<open>Accessing a resident key \<open>n\<close> times in a row adds \<open>n\<close> to its frequency.\<close>

lemma LFU_repeat_hits:
  assumes "LFU_inv c" and "Mapping.lookup (lfu_cache_map c) k = Some (f, it)"
  shows "\<exists>es c' it'. access_all (LFU c) (replicate n k) = Inr (es, LFU c') \<and> LFU_inv c' \<and>
           capacity c' = capacity c \<and>
           Mapping.keys (lfu_cache_map c') = Mapping.keys (lfu_cache_map c) \<and>
           Mapping.lookup (lfu_cache_map c') k = Some (f + of_nat n, it')"
  using assms
proof (induction n arbitrary: c f it)
  case 0
  then show ?case by simp
next
  case (Suc n)
  from LFU_hit [OF Suc.prems] obtain c1 where
    h: "LFU_access c k = Inr (Hit, c1)" "capacity c1 = capacity c"
      "lfu_cache_map c1 = Mapping.update k (f + 1, Node (lfu_alloc c)) (lfu_cache_map c)"
    by blast
  from LFU_step [OF Suc.prems(1), of k] h(1) have inv1: "LFU_inv c1" by auto
  from Suc.prems(2) have "k \<in> Mapping.keys (lfu_cache_map c)" by (simp add: in_keys_lookup)
  with h(3) have k1: "Mapping.keys (lfu_cache_map c1) = Mapping.keys (lfu_cache_map c)"
    by auto
  from h(3) have l1: "Mapping.lookup (lfu_cache_map c1) k = Some (f + 1, Node (lfu_alloc c))"
    by simp
  from Suc.IH [OF inv1 l1] obtain es c' it' where
    r: "access_all (LFU c1) (replicate n k) = Inr (es, LFU c')" "LFU_inv c'"
      "capacity c' = capacity c1"
      "Mapping.keys (lfu_cache_map c') = Mapping.keys (lfu_cache_map c1)"
      "Mapping.lookup (lfu_cache_map c') k = Some (f + 1 + of_nat n, it')"
    by blast
  have "access_all (LFU c) (replicate (Suc n) k) = Inr (Hit # es, LFU c')"
    using h(1) r(1) by (simp add: access_def)
  moreover have "f + 1 + of_nat n = f + of_nat (Suc n)" by simp
  ultimately show ?case using r h(2) k1 by metis
qed

section \<open>The claims of the specification\<close>

text \<open>
  C1, as the code has it. On the demonstration sequence with capacity 4, FIFO differs
  from LRU and from LFU both in the hit/miss pattern (the seventh access, to A, is a miss
  under FIFO and a hit under the other two) and in the keys resident at the end; LRU and
  LFU have the same hit/miss pattern and the same resident keys at the end.
\<close>

theorem demo_outcomes:
  "demo ''LRU'' =
     Inr ([False, False, False, False, True, False, True, False, True, False, False, False,
           True, True], {''A'', ''C'', ''D'', ''E''}) \<and>
   demo ''FIFO'' =
     Inr ([False, False, False, False, True, False, False, False, True, False, False, False,
           True, True], {''B'', ''C'', ''D'', ''E''}) \<and>
   demo ''LFU'' =
     Inr ([False, False, False, False, True, False, True, False, True, False, False, False,
           True, True], {''A'', ''C'', ''D'', ''E''}) \<and>
   demo ''LRU'' \<noteq> demo ''FIFO'' \<and> demo ''LFU'' \<noteq> demo ''FIFO'' \<and>
   demo ''LRU'' = demo ''LFU''"
proof -
  have lru: "demo ''LRU'' =
     Inr ([False, False, False, False, True, False, True, False, True, False, False, False,
           True, True], {''A'', ''C'', ''D'', ''E''})"
    by code_simp
  have fifo: "demo ''FIFO'' =
     Inr ([False, False, False, False, True, False, False, False, True, False, False, False,
           True, True], {''B'', ''C'', ''D'', ''E''})"
    by code_simp
  have lfu: "demo ''LFU'' =
     Inr ([False, False, False, False, True, False, True, False, True, False, False, False,
           True, True], {''A'', ''C'', ''D'', ''E''})"
    by code_simp
  show ?thesis unfolding lru fifo lfu by simp
qed

text \<open>
  C1, as stated, asks that every two of the three policies differ in the hit/miss
  pattern or in the final resident keys. LRU and LFU differ in neither.
\<close>

theorem demo_lru_lfu_counterexample:
  "demo ''LRU'' =
     Inr ([False, False, False, False, True, False, True, False, True, False, False, False,
           True, True], {''A'', ''C'', ''D'', ''E''}) \<and>
   demo ''LFU'' =
     Inr ([False, False, False, False, True, False, True, False, True, False, False, False,
           True, True], {''A'', ''C'', ''D'', ''E''}) \<and>
   \<not> (demo ''LRU'' \<noteq> demo ''FIFO'' \<and> demo ''LRU'' \<noteq> demo ''LFU'' \<and>
      demo ''FIFO'' \<noteq> demo ''LFU'')"
proof -
  have lru: "demo ''LRU'' =
     Inr ([False, False, False, False, True, False, True, False, True, False, False, False,
           True, True], {''A'', ''C'', ''D'', ''E''})"
    by code_simp
  have lfu: "demo ''LFU'' =
     Inr ([False, False, False, False, True, False, True, False, True, False, False, False,
           True, True], {''A'', ''C'', ''D'', ''E''})"
    by code_simp
  show ?thesis unfolding lru lfu by simp
qed

text \<open>
  C2, as the code has it. In every state an LFU run reaches, when a key that is not
  resident is accessed while the resident count equals the capacity, one key \<open>v\<close> is
  evicted, and every other resident key of the same frequency was last accessed after
  \<open>v\<close> was. If the run made fewer than \<open>2^31\<close> accesses, so that no frequency has wrapped
  around, the frequency of \<open>v\<close> is at most that of every resident key.
\<close>

theorem lfu_evicts_least_frequent_least_recent:
  "\<exists>es st sim c.
     run (CacheSimulator_init cap ks ''LFU'') = Inr (es, st, sim) \<and> cache sim = LFU c \<and>
     (k \<notin> Mapping.keys (lfu_cache_map c) \<and> Mapping.size (lfu_cache_map c) = capacity c \<longrightarrow>
        (\<exists>v fv c'.
           LFU_access c k = Inr (Miss (Some v), c') \<and> frequency c v = Some fv \<and>
           Mapping.keys (lfu_cache_map c') = insert k (Mapping.keys (lfu_cache_map c) - {v}) \<and>
           (\<forall>k' fk. frequency c k' = Some fk \<longrightarrow>
              (fk = fv \<and> k' \<noteq> v \<longrightarrow> last_touch ks v < last_touch ks k') \<and>
              (length ks < 2147483648 \<longrightarrow> sint fv \<le> sint fk))))"
proof -
  from LFU_access_all_recency [OF LFU_init_recency, of cap ks] obtain es c where
    a: "access_all (LFU (LFUCache_init cap)) ks = Inr (es, LFU c)"
    and inv: "LFU_inv c" and rec: "LFU_recency ks c"
    by auto
  have ord: "LFU_order (length ks) c" if "length ks < 2147483648"
    using LFU_access_all_order [OF LFU_init_recency(1) LFU_init_order _ a] that by simp
  have r: "run (CacheSimulator_init cap ks ''LFU'') =
          Inr (es, print_stats (LFU c), CacheSimulator_init cap ks ''LFU''\<lparr>cache := LFU c\<rparr>)"
    using a by (simp add: run_def CacheSimulator_init_def)
  have "\<exists>v fv c'.
           LFU_access c k = Inr (Miss (Some v), c') \<and> frequency c v = Some fv \<and>
           Mapping.keys (lfu_cache_map c') = insert k (Mapping.keys (lfu_cache_map c) - {v}) \<and>
           (\<forall>k' fk. frequency c k' = Some fk \<longrightarrow>
              (fk = fv \<and> k' \<noteq> v \<longrightarrow> last_touch ks v < last_touch ks k') \<and>
              (length ks < 2147483648 \<longrightarrow> sint fv \<le> sint fk))"
    if h: "k \<notin> Mapping.keys (lfu_cache_map c)" "Mapping.size (lfu_cache_map c) = capacity c"
  proof -
    from LFU_eviction_victim [OF inv rec h, of "length ks"] obtain v fv c' where
      e: "LFU_access c k = Inr (Miss (Some v), c')" "frequency c v = Some fv"
        "Mapping.keys (lfu_cache_map c') = insert k (Mapping.keys (lfu_cache_map c) - {v})"
      and q: "\<And>k' fk. frequency c k' = Some fk \<Longrightarrow>
              (fk = fv \<and> k' \<noteq> v \<longrightarrow> last_touch ks v < last_touch ks k') \<and>
              (LFU_order (length ks) c \<and> length ks < 2147483648 \<longrightarrow> sint fv \<le> sint fk)"
      by blast
    have "(fk = fv \<and> k' \<noteq> v \<longrightarrow> last_touch ks v < last_touch ks k') \<and>
          (length ks < 2147483648 \<longrightarrow> sint fv \<le> sint fk)"
      if "frequency c k' = Some fk" for k' fk
      using q [OF that] ord by blast
    with e show ?thesis by blast
  qed
  then have "k \<notin> Mapping.keys (lfu_cache_map c) \<and>
      Mapping.size (lfu_cache_map c) = capacity c \<longrightarrow>
        (\<exists>v fv c'.
           LFU_access c k = Inr (Miss (Some v), c') \<and> frequency c v = Some fv \<and>
           Mapping.keys (lfu_cache_map c') = insert k (Mapping.keys (lfu_cache_map c) - {v}) \<and>
           (\<forall>k' fk. frequency c k' = Some fk \<longrightarrow>
              (fk = fv \<and> k' \<noteq> v \<longrightarrow> last_touch ks v < last_touch ks k') \<and>
              (length ks < 2147483648 \<longrightarrow> sint fv \<le> sint fk)))"
    by blast
  moreover have "cache (CacheSimulator_init cap ks ''LFU''\<lparr>cache := LFU c\<rparr>) = LFU c" by simp
  ultimately show ?thesis using r by blast
qed

theorem lfu_evicts_least_frequent_least_recent_witness:
  "\<exists>es st sim c c'.
     run (CacheSimulator_init 3 [''A'', ''B'', ''C'', ''A''] ''LFU'') = Inr (es, st, sim) \<and>
     cache sim = LFU c \<and>
     ''D'' \<notin> Mapping.keys (lfu_cache_map c) \<and> Mapping.size (lfu_cache_map c) = capacity c \<and>
     LFU_access c ''D'' = Inr (Miss (Some ''B''), c') \<and>
     frequency c ''A'' = Some 2 \<and> frequency c ''B'' = Some 1 \<and> frequency c ''C'' = Some 1 \<and>
     last_touch [''A'', ''B'', ''C'', ''A''] ''B'' < last_touch [''A'', ''B'', ''C'', ''A''] ''C'' \<and>
     length [''A'', ''B'', ''C'', ''A''] < 2147483648 \<and>
     sint (1 :: cpp_int) \<le> sint (2 :: cpp_int)"
proof -
  define ks where "ks = [''A'', ''B'', ''C'', ''A'']"
  define d where "d = ''D''"
  from lfu_evicts_least_frequent_least_recent [of 3 ks d] obtain es st sim c where
    r: "run (CacheSimulator_init 3 ks ''LFU'') = Inr (es, st, sim)" and c: "cache sim = LFU c"
    and h: "d \<notin> Mapping.keys (lfu_cache_map c) \<and>
            Mapping.size (lfu_cache_map c) = capacity c \<longrightarrow>
        (\<exists>v fv c'.
           LFU_access c d = Inr (Miss (Some v), c') \<and> frequency c v = Some fv \<and>
           Mapping.keys (lfu_cache_map c') =
             insert d (Mapping.keys (lfu_cache_map c) - {v}) \<and>
           (\<forall>k' fk. frequency c k' = Some fk \<longrightarrow>
              (fk = fv \<and> k' \<noteq> v \<longrightarrow> last_touch ks v < last_touch ks k') \<and>
              (length ks < 2147483648 \<longrightarrow> sint fv \<le> sint fk)))"
    by blast
  have ev: "case run (CacheSimulator_init 3 ks ''LFU'') of
          Inl f \<Rightarrow> False
        | Inr (es, st, sim) \<Rightarrow>
            (case cache sim of
               LFU c \<Rightarrow> d \<notin> Mapping.keys (lfu_cache_map c) \<and>
                         Mapping.size (lfu_cache_map c) = capacity c \<and>
                         map_sum id fst (LFU_access c d) = Inr (Miss (Some ''B'')) \<and>
                         frequency c ''A'' = Some 2 \<and> frequency c ''B'' = Some 1 \<and>
                         frequency c ''C'' = Some 1
             | _ \<Rightarrow> False)"
    unfolding ks_def d_def by code_simp
  have f: "d \<notin> Mapping.keys (lfu_cache_map c)"
    "Mapping.size (lfu_cache_map c) = capacity c"
    "map_sum id fst (LFU_access c d) = Inr (Miss (Some ''B''))"
    "frequency c ''A'' = Some 2" "frequency c ''B'' = Some 1" "frequency c ''C'' = Some 1"
    using ev unfolding r by (simp_all add: c)
  from h f(1,2) obtain v fv c' where
    a: "LFU_access c d = Inr (Miss (Some v), c')" and fv: "frequency c v = Some fv"
    and least: "\<forall>k' fk. frequency c k' = Some fk \<longrightarrow>
              (fk = fv \<and> k' \<noteq> v \<longrightarrow> last_touch ks v < last_touch ks k') \<and>
              (length ks < 2147483648 \<longrightarrow> sint fv \<le> sint fk)"
    by blast
  from a f(3) have v: "v = ''B''" by simp
  with fv f(5) have fv1: "fv = 1" by simp
  have len: "length ks < 2147483648" by (simp add: ks_def)
  from least [THEN spec, THEN spec, THEN mp, OF f(6)]
  have "(1 = fv \<and> ''C'' \<noteq> v \<longrightarrow> last_touch ks v < last_touch ks ''C'') \<and>
        (length ks < 2147483648 \<longrightarrow> sint fv \<le> sint (1 :: cpp_int))" .
  with v fv1 have lt: "last_touch ks ''B'' < last_touch ks ''C''" by simp
  from least [THEN spec, THEN spec, THEN mp, OF f(4)] len fv1
  have le: "sint (1 :: cpp_int) \<le> sint (2 :: cpp_int)" by blast
  from a v have a': "LFU_access c d = Inr (Miss (Some ''B''), c')" by simp
  have "run (CacheSimulator_init 3 ks ''LFU'') = Inr (es, st, sim) \<and>
     cache sim = LFU c \<and>
     d \<notin> Mapping.keys (lfu_cache_map c) \<and> Mapping.size (lfu_cache_map c) = capacity c \<and>
     LFU_access c d = Inr (Miss (Some ''B''), c') \<and>
     frequency c ''A'' = Some 2 \<and> frequency c ''B'' = Some 1 \<and> frequency c ''C'' = Some 1 \<and>
     last_touch ks ''B'' < last_touch ks ''C'' \<and>
     length ks < 2147483648 \<and> sint (1 :: cpp_int) \<le> sint (2 :: cpp_int)"
    using r c f(1,2) a' f(4,5,6) lt len le by (intro conjI)
  then show ?thesis unfolding ks_def d_def by (intro exI)
qed

text \<open>
  C2, as stated, holds of every eviction. With capacity 2, after \<open>2^31\<close> accesses to A
  the frequency recorded for A has wrapped around to \<open>-2^31\<close>; B is then inserted with
  frequency 1, and the next miss evicts B although the frequency of A is smaller.
\<close>

theorem lfu_eviction_counterexample:
  "victim_after 2 (replicate 2147483648 ''A'' @ [''B'']) ''C'' = Some ''B'' \<and>
   frequency_after 2 (replicate 2147483648 ''A'' @ [''B'']) ''B'' = Some 1 \<and>
   frequency_after 2 (replicate 2147483648 ''A'' @ [''B'']) ''A'' = Some (- 2147483648) \<and>
   \<not> sint (1 :: cpp_int) \<le> sint (- 2147483648 :: cpp_int)"
proof -
  define N :: nat where "N = 2147483647"
  define a where "a = ''A''"
  define b where "b = ''B''"
  define x where "x = ''C''"
  have ab: "a \<noteq> b" "b \<noteq> a" "x \<noteq> a" "x \<noteq> b" by (simp_all add: a_def b_def x_def)
  let ?c0 = "LFUCache_init 2"
  have inv0: "LFU_inv ?c0" by (rule LFU_init_recency(1))
  have c0: "capacity ?c0 = 2" "lfu_cache_map ?c0 = Mapping.empty"
    by (simp_all add: LFUCache_init_def ICachePolicy_init_def ICachePolicy.extend_def
        LFUCache.fields_def Let_def)
  \<comment> \<open>the first access to A\<close>
  have n0: "Mapping.lookup (lfu_cache_map ?c0) a = None" by (simp add: c0)
  from LFU_miss [OF inv0 n0] obtain e1 c1 B1 m1 where
    a1: "LFU_access ?c0 a = Inr (Miss e1, c1)"
    and sel1: "if capacity ?c0 \<le> Mapping.size (lfu_cache_map ?c0)
            then freq_at (freq_map ?c0) (min_frequency ?c0) \<noteq> [] \<and>
                 e1 = Some (snd (last (freq_at (freq_map ?c0) (min_frequency ?c0)))) \<and>
                 B1 = (\<lambda>g. if g = min_frequency ?c0
                          then butlast (freq_at (freq_map ?c0) (min_frequency ?c0))
                          else freq_at (freq_map ?c0) g) \<and>
                 m1 = Mapping.delete (snd (last (freq_at (freq_map ?c0) (min_frequency ?c0))))
                       (lfu_cache_map ?c0)
            else e1 = None \<and> B1 = freq_at (freq_map ?c0) \<and> m1 = lfu_cache_map ?c0"
    and cap1: "capacity c1 = capacity ?c0"
    and cm1: "lfu_cache_map c1 = Mapping.update a (1, Node (lfu_alloc ?c0)) m1"
    by blast
  from sel1 have m1: "m1 = Mapping.empty" by (simp add: c0)
  from LFU_step [OF inv0, of a] a1 have inv1: "LFU_inv c1" by auto
  from cm1 m1 have l1: "Mapping.lookup (lfu_cache_map c1) a = Some (1, Node (lfu_alloc ?c0))"
    and k1: "Mapping.keys (lfu_cache_map c1) = {a}"
    by simp_all
  \<comment> \<open>the accesses to A that follow\<close>
  from LFU_repeat_hits [OF inv1 l1, of N] obtain es2 c2 it2 where
    a2: "access_all (LFU c1) (replicate N a) = Inr (es2, LFU c2)" and inv2: "LFU_inv c2"
    and cap2: "capacity c2 = capacity c1"
    and k2: "Mapping.keys (lfu_cache_map c2) = Mapping.keys (lfu_cache_map c1)"
    and l2: "Mapping.lookup (lfu_cache_map c2) a = Some (1 + of_nat N, it2)"
    by blast
  have wrap: "(1 :: cpp_int) + of_nat N = - 2147483648" by (simp add: N_def)
  have nb: "Mapping.lookup (lfu_cache_map c2) b = None"
    by (rule not_in_keys_lookup) (simp add: k2 k1 ab)
  have sz2: "Mapping.size (lfu_cache_map c2) = 1"
    using k2 k1 by (simp add: Mapping.size_def)
  have empty1: "freq_at (freq_map c2) 1 = []"
  proof (rule ccontr)
    assume "freq_at (freq_map c2) 1 \<noteq> []"
    then obtain y where y: "y \<in> set (list_keys (freq_at (freq_map c2) 1))"
      by (cases "freq_at (freq_map c2) 1") (auto simp: list_keys_def)
    with LFU_inv_key_bucket [OF inv2, of y 1] obtain n where
      ly: "Mapping.lookup (lfu_cache_map c2) y = Some (1, Node n)"
      by blast
    then have "y \<in> Mapping.keys (lfu_cache_map c2)" by (simp add: in_keys_lookup)
    with k2 k1 have "y = a" by simp
    with ly l2 wrap show False by simp
  qed
  \<comment> \<open>the access to B\<close>
  from LFU_miss [OF inv2 nb] obtain e3 c3 B3 m3 where
    a3: "LFU_access c2 b = Inr (Miss e3, c3)"
    and sel3: "if capacity c2 \<le> Mapping.size (lfu_cache_map c2)
            then freq_at (freq_map c2) (min_frequency c2) \<noteq> [] \<and>
                 e3 = Some (snd (last (freq_at (freq_map c2) (min_frequency c2)))) \<and>
                 B3 = (\<lambda>g. if g = min_frequency c2
                          then butlast (freq_at (freq_map c2) (min_frequency c2))
                          else freq_at (freq_map c2) g) \<and>
                 m3 = Mapping.delete (snd (last (freq_at (freq_map c2) (min_frequency c2))))
                       (lfu_cache_map c2)
            else e3 = None \<and> B3 = freq_at (freq_map c2) \<and> m3 = lfu_cache_map c2"
    and cap3: "capacity c3 = capacity c2"
    and cm3: "lfu_cache_map c3 = Mapping.update b (1, Node (lfu_alloc c2)) m3"
    and fm3: "\<forall>g. freq_at (freq_map c3) g =
                (if g = 1 then (lfu_alloc c2, b) # B3 1 else B3 g)"
    and mf3: "min_frequency c3 = 1"
    by blast
  from cap2 cap1 c0 have c2cap: "capacity c2 = 2" by simp
  with sel3 sz2 have m3: "m3 = lfu_cache_map c2" and B3: "B3 = freq_at (freq_map c2)"
    by simp_all
  from LFU_step [OF inv2, of b] a3 have inv3: "LFU_inv c3" by auto
  from cm3 m3 k2 k1 have k3: "Mapping.keys (lfu_cache_map c3) = {a, b}" by auto
  from cm3 m3 l2 ab wrap have fa: "frequency c3 a = Some (- 2147483648)"
    by (simp add: frequency_def)
  from cm3 have fb: "frequency c3 b = Some 1" by (simp add: frequency_def)
  from fm3 B3 empty1 have b1: "freq_at (freq_map c3) 1 = [(lfu_alloc c2, b)]" by simp
  \<comment> \<open>the miss on C\<close>
  have nx: "Mapping.lookup (lfu_cache_map c3) x = None"
    by (rule not_in_keys_lookup) (simp add: k3 ab)
  have sz3: "Mapping.size (lfu_cache_map c3) = 2"
    using k3 ab by (simp add: Mapping.size_def)
  from LFU_miss [OF inv3 nx] obtain e4 c4 where
    a4: "LFU_access c3 x = Inr (Miss e4, c4)"
    and sel4: "if capacity c3 \<le> Mapping.size (lfu_cache_map c3)
            then e4 = Some (snd (last (freq_at (freq_map c3) (min_frequency c3))))
            else e4 = None"
    by (auto split: if_splits)
  from sel4 sz3 cap3 c2cap mf3 b1 have e4: "e4 = Some b" by simp
  \<comment> \<open>the run as a whole\<close>
  have "access_all (LFU ?c0) (replicate (Suc N) a @ [b]) = Inr (Miss e1 # es2 @ [Miss e3], LFU c3)"
    using a1 a2 a3 by (simp add: access_all_append access_def)
  then have after: "LFU_after 2 (replicate (Suc N) a @ [b]) = Some c3"
    by (simp add: LFU_after_def run_def CacheSimulator_init_def)
  have num: "(2147483648 :: nat) = Suc N" by (simp add: N_def)
  have "victim_after 2 (replicate (Suc N) a @ [b]) x = Some b"
    "frequency_after 2 (replicate (Suc N) a @ [b]) b = Some 1"
    "frequency_after 2 (replicate (Suc N) a @ [b]) a = Some (- 2147483648)"
    using after a4 e4 fa fb by (simp_all add: victim_after_def frequency_after_def)
  moreover have "\<not> sint (1 :: cpp_int) \<le> sint (- 2147483648 :: cpp_int)" by simp
  ultimately show ?thesis unfolding num a_def b_def x_def by (intro conjI)
qed

text \<open>
  C3. For the LFU policy, started from an empty cache, after every sequence of accesses:
  every resident key occurs exactly once in the bucket of the frequency its directory
  entry records and in no other bucket, every key of a bucket is resident with that
  bucket's frequency, and when the cache is not empty the bucket the minimum-frequency
  pointer names is not empty. The run itself never faults.
\<close>

theorem lfu_bucket_invariant:
  "\<exists>es st sim c.
     run (CacheSimulator_init cap ks ''LFU'') = Inr (es, st, sim) \<and> cache sim = LFU c \<and>
     (\<forall>k f it. Mapping.lookup (lfu_cache_map c) k = Some (f, it) \<longrightarrow>
        (\<forall>g. count_list (list_keys (freq_at (freq_map c) g)) k = (if g = f then 1 else 0))) \<and>
     (\<forall>g k. k \<in> set (list_keys (freq_at (freq_map c) g)) \<longrightarrow> frequency c k = Some g) \<and>
     (Mapping.keys (lfu_cache_map c) \<noteq> {} \<longrightarrow>
        freq_at (freq_map c) (min_frequency c) \<noteq> [])"
proof -
  from run_reach [of cap ks "''LFU''"] obtain es p where
    r: "run (CacheSimulator_init cap ks ''LFU'') =
          Inr (es, print_stats p, CacheSimulator_init cap ks ''LFU''\<lparr>cache := p\<rparr>)"
    and i: "policy_inv p"
    and kd: "policy_kind p = policy_kind (cache (CacheSimulator_init cap ks ''LFU''))"
    by blast
  from kd have "policy_kind p = ''LFU''" by (simp add: init_kind)
  then obtain c where c: "p = LFU c" using kind_LFU by blast
  with i have inv: "LFU_inv c" by (simp add: policy_inv_def)
  then have "Mapping.keys (lfu_cache_map c) \<noteq> {} \<longrightarrow>
        freq_at (freq_map c) (min_frequency c) \<noteq> []"
    unfolding LFU_inv_def by blast
  with LFU_inv_buckets [OF inv] r c show ?thesis by simp
qed

theorem lfu_bucket_invariant_witness:
  "\<exists>es st sim c it.
     run (CacheSimulator_init 2 [''A'', ''B'', ''A''] ''LFU'') = Inr (es, st, sim) \<and>
     cache sim = LFU c \<and>
     Mapping.lookup (lfu_cache_map c) ''A'' = Some (2, it) \<and>
     count_list (list_keys (freq_at (freq_map c) 2)) ''A'' = 1 \<and>
     count_list (list_keys (freq_at (freq_map c) 1)) ''A'' = 0 \<and>
     ''B'' \<in> set (list_keys (freq_at (freq_map c) 1)) \<and> frequency c ''B'' = Some 1 \<and>
     Mapping.keys (lfu_cache_map c) \<noteq> {} \<and>
     freq_at (freq_map c) (min_frequency c) \<noteq> []"
proof -
  from lfu_bucket_invariant [of 2 "[''A'', ''B'', ''A'']"] obtain es st sim c where
    r: "run (CacheSimulator_init 2 [''A'', ''B'', ''A''] ''LFU'') = Inr (es, st, sim)"
    and c: "cache sim = LFU c"
    and b: "\<And>k f it g. Mapping.lookup (lfu_cache_map c) k = Some (f, it) \<Longrightarrow>
        count_list (list_keys (freq_at (freq_map c) g)) k = (if g = f then 1 else 0)"
    and d: "\<And>g k. k \<in> set (list_keys (freq_at (freq_map c) g)) \<Longrightarrow> frequency c k = Some g"
    and m: "Mapping.keys (lfu_cache_map c) \<noteq> {} \<Longrightarrow>
        freq_at (freq_map c) (min_frequency c) \<noteq> []"
    by blast
  have "case run (CacheSimulator_init 2 [''A'', ''B'', ''A''] ''LFU'') of
          Inl f \<Rightarrow> False
        | Inr (es, st, sim) \<Rightarrow>
            (case cache sim of
               LFU c \<Rightarrow> Mapping.lookup (lfu_cache_map c) ''A'' = Some (2, Node 2) \<and>
                         ''B'' \<in> set (list_keys (freq_at (freq_map c) 1)) \<and>
                         ''A'' \<in> Mapping.keys (lfu_cache_map c)
             | _ \<Rightarrow> False)"
    by code_simp
  with r c have f: "Mapping.lookup (lfu_cache_map c) ''A'' = Some (2, Node 2)"
    "''B'' \<in> set (list_keys (freq_at (freq_map c) 1))"
    "''A'' \<in> Mapping.keys (lfu_cache_map c)"
    by simp_all
  from f(3) have ne: "Mapping.keys (lfu_cache_map c) \<noteq> {}" by blast
  from b [OF f(1), of 2] b [OF f(1), of 1] d [OF f(2)] m [OF ne] r c f(1) ne f(2)
  show ?thesis by simp
qed

text \<open>
  C4. For every policy type, every requested capacity and every sequence of keys, the
  run does not fault and, after it, the number of resident keys (the size the policy
  compares with its capacity, and the number of keys of its directory) is at most the
  capacity, which is the requested one, or one when zero was requested. The sequence is
  arbitrary, so this holds after each access, also one that names an unseen key while
  the cache is full.
\<close>

theorem resident_count_within_capacity:
  "\<exists>es st sim.
     run (CacheSimulator_init cap ks policy_type) = Inr (es, st, sim) \<and>
     capacity (base (cache sim)) = (if cap = 0 then 1 else cap) \<and>
     resident_count (cache sim) \<le> capacity (base (cache sim)) \<and>
     finite (resident (cache sim)) \<and>
     card (resident (cache sim)) \<le> capacity (base (cache sim))"
proof -
  from run_reach [of cap ks policy_type] obtain es p where
    r: "run (CacheSimulator_init cap ks policy_type) =
          Inr (es, print_stats p, CacheSimulator_init cap ks policy_type\<lparr>cache := p\<rparr>)"
    and i: "policy_inv p" and c: "capacity (base p) = (if cap = 0 then 1 else cap)"
    by blast
  from policy_inv_count [OF i] r c show ?thesis by simp
qed

text \<open>
  C5. In every state a run reaches, under every policy, an access to \<open>k\<close> is a hit
  exactly when \<open>k\<close> is resident; a hit increments \<open>hits\<close> and leaves \<open>misses\<close>, a miss
  increments \<open>misses\<close> and leaves \<open>hits\<close>. The increment is that of the 32-bit counter;
  after fewer than \<open>2^31 - 1\<close> accesses the two counters add up to the number of
  accesses made and the incremented one grows by one as a number.
\<close>

theorem hit_iff_resident_before:
  "\<exists>es st sim e p'.
     run (CacheSimulator_init cap ks policy_type) = Inr (es, st, sim) \<and>
     access (cache sim) k = Inr (e, p') \<and>
     (e = Hit \<longleftrightarrow> k \<in> resident (cache sim)) \<and>
     (if k \<in> resident (cache sim)
      then hits (base p') = hits (base (cache sim)) + 1 \<and>
           misses (base p') = misses (base (cache sim))
      else hits (base p') = hits (base (cache sim)) \<and>
           misses (base p') = misses (base (cache sim)) + 1) \<and>
     (length ks < 2147483647 \<longrightarrow>
        sint (hits (base (cache sim))) + sint (misses (base (cache sim))) = int (length ks) \<and>
        (if k \<in> resident (cache sim)
         then sint (hits (base p')) = sint (hits (base (cache sim))) + 1
         else sint (misses (base p')) = sint (misses (base (cache sim))) + 1))"
proof -
  from run_reach [of cap ks policy_type] obtain es p a b where
    r: "run (CacheSimulator_init cap ks policy_type) =
          Inr (es, print_stats p, CacheSimulator_init cap ks policy_type\<lparr>cache := p\<rparr>)"
    and i: "policy_inv p"
    and ab: "a + b = length ks" "hits (base p) = of_nat a" "misses (base p) = of_nat b"
    by blast
  from access_step [OF i, of k] obtain e p' where
    acc: "access p k = Inr (e, p')" and ev: "e = Hit \<longleftrightarrow> k \<in> resident p"
    and cnt: "if k \<in> resident p
              then hits (base p') = hits (base p) + 1 \<and> misses (base p') = misses (base p)
              else hits (base p') = hits (base p) \<and> misses (base p') = misses (base p) + 1"
    by (cases "k \<in> resident p") auto
  have num: "sint (hits (base p)) + sint (misses (base p)) = int (length ks) \<and>
        (if k \<in> resident p
         then sint (hits (base p')) = sint (hits (base p)) + 1
         else sint (misses (base p')) = sint (misses (base p)) + 1)"
    if len: "length ks < 2147483647"
  proof -
    from len ab(1) have small: "a < 2147483648" "b < 2147483648"
      "Suc a < 2147483648" "Suc b < 2147483648"
      by simp_all
    have h1: "hits (base p) + 1 = of_nat (Suc a)" and m1: "misses (base p) + 1 = of_nat (Suc b)"
      using ab by simp_all
    have s0: "sint (hits (base p)) = int a" "sint (misses (base p)) = int b"
      unfolding ab using small by (simp_all only: sint_of_nat_small)
    have s1: "sint (hits (base p) + 1) = int (Suc a)" "sint (misses (base p) + 1) = int (Suc b)"
      unfolding h1 m1 using small by (simp_all only: sint_of_nat_small)
    from ab(1) have sum: "int a + int b = int (length ks)" by (simp only: of_nat_add [symmetric])
    show ?thesis
    proof (cases "k \<in> resident p")
      case True
      with cnt have "hits (base p') = hits (base p) + 1" by simp
      with s0 s1 sum True show ?thesis by simp
    next
      case False
      with cnt have "misses (base p') = misses (base p) + 1" by simp
      with s0 s1 sum False show ?thesis by simp
    qed
  qed
  let ?sim = "CacheSimulator_init cap ks policy_type\<lparr>cache := p\<rparr>"
  have c: "cache ?sim = p" by simp
  from num have num': "length ks < 2147483647 \<longrightarrow>
        sint (hits (base p)) + sint (misses (base p)) = int (length ks) \<and>
        (if k \<in> resident p
         then sint (hits (base p')) = sint (hits (base p)) + 1
         else sint (misses (base p')) = sint (misses (base p)) + 1)"
    by blast
  have "run (CacheSimulator_init cap ks policy_type) = Inr (es, print_stats p, ?sim) \<and>
     access (cache ?sim) k = Inr (e, p') \<and>
     (e = Hit \<longleftrightarrow> k \<in> resident (cache ?sim)) \<and>
     (if k \<in> resident (cache ?sim)
      then hits (base p') = hits (base (cache ?sim)) + 1 \<and>
           misses (base p') = misses (base (cache ?sim))
      else hits (base p') = hits (base (cache ?sim)) \<and>
           misses (base p') = misses (base (cache ?sim)) + 1) \<and>
     (length ks < 2147483647 \<longrightarrow>
        sint (hits (base (cache ?sim))) + sint (misses (base (cache ?sim))) = int (length ks) \<and>
        (if k \<in> resident (cache ?sim)
         then sint (hits (base p')) = sint (hits (base (cache ?sim))) + 1
         else sint (misses (base p')) = sint (misses (base (cache ?sim))) + 1))"
    unfolding c using r acc ev cnt num' by (intro conjI)
  then show ?thesis by blast
qed

theorem hit_iff_resident_before_witness:
  "\<exists>es st sim p'.
     run (CacheSimulator_init 2 [''A'', ''B''] ''LRU'') = Inr (es, st, sim) \<and>
     access (cache sim) ''A'' = Inr (Hit, p') \<and> ''A'' \<in> resident (cache sim) \<and>
     length [''A'', ''B''] < 2147483647 \<and>
     sint (hits (base (cache sim))) + sint (misses (base (cache sim))) = 2 \<and>
     sint (hits (base p')) = sint (hits (base (cache sim))) + 1"
proof -
  define ks where "ks = [''A'', ''B'']"
  define a where "a = ''A''"
  from hit_iff_resident_before [of 2 ks "''LRU''" a] obtain es st sim e p' where
    r: "run (CacheSimulator_init 2 ks ''LRU'') = Inr (es, st, sim)"
    and acc: "access (cache sim) a = Inr (e, p')"
    and ev: "e = Hit \<longleftrightarrow> a \<in> resident (cache sim)"
    and num: "length ks < 2147483647 \<longrightarrow>
        sint (hits (base (cache sim))) + sint (misses (base (cache sim))) = int (length ks) \<and>
        (if a \<in> resident (cache sim)
         then sint (hits (base p')) = sint (hits (base (cache sim))) + 1
         else sint (misses (base p')) = sint (misses (base (cache sim))) + 1)"
    by blast
  have "case run (CacheSimulator_init 2 ks ''LRU'') of
          Inl f \<Rightarrow> False | Inr (es, st, sim) \<Rightarrow> a \<in> resident (cache sim)"
    unfolding ks_def a_def by code_simp
  with r have res: "a \<in> resident (cache sim)" by simp
  have len: "length ks < 2147483647" by (simp add: ks_def)
  from num len res have
    "sint (hits (base (cache sim))) + sint (misses (base (cache sim))) = 2"
    "sint (hits (base p')) = sint (hits (base (cache sim))) + 1"
    by (simp_all add: ks_def)
  with r acc ev res len have
    "run (CacheSimulator_init 2 ks ''LRU'') = Inr (es, st, sim) \<and>
     access (cache sim) a = Inr (Hit, p') \<and> a \<in> resident (cache sim) \<and>
     length ks < 2147483647 \<and>
     sint (hits (base (cache sim))) + sint (misses (base (cache sim))) = 2 \<and>
     sint (hits (base p')) = sint (hits (base (cache sim))) + 1"
    by simp
  then show ?thesis unfolding ks_def a_def by (intro exI)
qed

text \<open>
  C6. In every state a FIFO run reaches, accessing a resident key is a hit that leaves
  the queue and the membership set as they were; the front of the queue, the key the
  next eviction removes, is the same, and so is the outcome of any access made next.
\<close>

theorem fifo_hit_changes_nothing:
  "\<exists>es st sim c.
     run (CacheSimulator_init cap ks ''FIFO'') = Inr (es, st, sim) \<and> cache sim = FIFO c \<and>
     (k \<in> cache_set c \<longrightarrow>
        (\<exists>c'. FIFO_access c k = Inr (Hit, c') \<and>
              fifo_queue c' = fifo_queue c \<and> cache_set c' = cache_set c \<and>
              queue_front (fifo_queue c') = queue_front (fifo_queue c) \<and>
              (\<forall>x. map_sum id fst (FIFO_access c' x) = map_sum id fst (FIFO_access c x))))"
proof -
  from run_reach [of cap ks "''FIFO''"] obtain es p where
    r: "run (CacheSimulator_init cap ks ''FIFO'') =
          Inr (es, print_stats p, CacheSimulator_init cap ks ''FIFO''\<lparr>cache := p\<rparr>)"
    and kd: "policy_kind p = policy_kind (cache (CacheSimulator_init cap ks ''FIFO''))"
    by blast
  from kd have "policy_kind p = ''FIFO''" by (simp add: init_kind)
  then obtain c where c: "p = FIFO c" using kind_FIFO by blast
  have "map_sum id fst (FIFO_access (c\<lparr>hits := hits c + 1\<rparr>) x) =
        map_sum id fst (FIFO_access c x)" for x
    by (simp add: FIFO_access_def split: sum.splits prod.splits)
  then have "\<exists>c'. FIFO_access c k = Inr (Hit, c') \<and>
              fifo_queue c' = fifo_queue c \<and> cache_set c' = cache_set c \<and>
              queue_front (fifo_queue c') = queue_front (fifo_queue c) \<and>
              (\<forall>x. map_sum id fst (FIFO_access c' x) = map_sum id fst (FIFO_access c x))"
    if "k \<in> cache_set c"
    using that by (simp add: FIFO_hit)
  with r c show ?thesis by auto
qed

theorem fifo_hit_changes_nothing_witness:
  "\<exists>es st sim c c'.
     run (CacheSimulator_init 2 [''A'', ''B''] ''FIFO'') = Inr (es, st, sim) \<and>
     cache sim = FIFO c \<and> ''B'' \<in> cache_set c \<and>
     FIFO_access c ''B'' = Inr (Hit, c') \<and>
     fifo_queue c' = fifo_queue c \<and> cache_set c' = cache_set c \<and>
     queue_front (fifo_queue c') = Inr ''A'' \<and>
     map_sum id fst (FIFO_access c' ''C'') = Inr (Miss (Some ''A''))"
proof -
  from fifo_hit_changes_nothing [of 2 "[''A'', ''B'']" "''B''"] obtain es st sim c where
    r: "run (CacheSimulator_init 2 [''A'', ''B''] ''FIFO'') = Inr (es, st, sim)"
    and c: "cache sim = FIFO c"
    and h: "''B'' \<in> cache_set c \<longrightarrow>
        (\<exists>c'. FIFO_access c ''B'' = Inr (Hit, c') \<and>
              fifo_queue c' = fifo_queue c \<and> cache_set c' = cache_set c \<and>
              queue_front (fifo_queue c') = queue_front (fifo_queue c) \<and>
              (\<forall>x. map_sum id fst (FIFO_access c' x) = map_sum id fst (FIFO_access c x)))"
    by blast
  have "case run (CacheSimulator_init 2 [''A'', ''B''] ''FIFO'') of
          Inl f \<Rightarrow> False
        | Inr (es, st, sim) \<Rightarrow>
            (case cache sim of
               FIFO c \<Rightarrow> ''B'' \<in> cache_set c \<and> queue_front (fifo_queue c) = Inr ''A'' \<and>
                          map_sum id fst (FIFO_access c ''C'') = Inr (Miss (Some ''A''))
             | _ \<Rightarrow> False)"
    by code_simp
  with r c have "''B'' \<in> cache_set c" "queue_front (fifo_queue c) = Inr ''A''"
    "map_sum id fst (FIFO_access c ''C'') = Inr (Miss (Some ''A''))"
    by simp_all
  with r c h show ?thesis by fastforce
qed

text \<open>
  C7. Under LRU with a capacity of at least 2, whenever a sequence accesses the same key
  twice in a row, the second of the two accesses is a hit.
\<close>

theorem lru_repeated_access_hits:
  assumes "2 \<le> cap"
  shows "\<exists>es st sim.
           run (CacheSimulator_init cap (xs @ [k, k] @ ys) ''LRU'') = Inr (es, st, sim) \<and>
           length es = length (xs @ [k, k] @ ys) \<and>
           es ! Suc (length xs) = Hit"
proof -
  let ?p0 = "cache (CacheSimulator_init cap (xs @ [k, k] @ ys) ''LRU'')"
  from access_all_inv [OF init_inv(1), of cap "xs @ [k, k] @ ys" "''LRU''" xs]
  obtain es1 p1 where
    a1: "access_all ?p0 xs = Inr (es1, p1)" "policy_inv p1" "length es1 = length xs"
    by blast
  from access_step [OF a1(2), of k] obtain e1 p2 where
    a2: "access p1 k = Inr (e1, p2)" "policy_inv p2" "k \<in> resident p2"
    by blast
  from access_step [OF a2(2), of k] a2(3) obtain p3 where
    a3: "access p2 k = Inr (Hit, p3)" "policy_inv p3"
    by auto
  from access_all_inv [OF a3(2), of ys] obtain es3 p4 where
    a4: "access_all p3 ys = Inr (es3, p4)" "length es3 = length ys"
    by blast
  have "access_all ?p0 (xs @ [k, k] @ ys) = Inr (es1 @ [e1, Hit] @ es3, p4)"
    using a1(1) a2(1) a3(1) a4(1) by (simp add: access_all_append)
  moreover have "(es1 @ [e1, Hit] @ es3) ! Suc (length xs) = Hit"
    using a1(3) by (simp add: nth_append)
  ultimately show ?thesis
    using a1(3) a4(2) by (simp add: run_def init_inv)
qed

theorem lru_repeated_access_hits_witness:
  "(2::nat) \<le> 2 \<and>
   (\<exists>es st sim.
      run (CacheSimulator_init 2 ([''A''] @ [''B'', ''B''] @ [''C'']) ''LRU'') = Inr (es, st, sim) \<and>
      length es = length ([''A''] @ [''B'', ''B''] @ [''C'']) \<and>
      es ! Suc (length [''A'']) = Hit)"
  using lru_repeated_access_hits [of 2 "[''A'']" "''B''" "[''C'']"] by simp



text \<open>
  C9. A simulator built with a requested capacity of zero is the simulator built with
  capacity one: the policy object has capacity 1, and so every run of it is the run of
  the capacity-one instance. Construction has no failing branch.
\<close>

theorem zero_capacity_is_capacity_one:
  "CacheSimulator_init 0 ks policy_type = CacheSimulator_init 1 ks policy_type \<and>
   capacity (base (cache (CacheSimulator_init 0 ks policy_type))) = 1 \<and>
   run (CacheSimulator_init 0 ks policy_type) = run (CacheSimulator_init 1 ks policy_type)"
proof -
  have "ICachePolicy_init 0 = ICachePolicy_init 1"
    by (simp add: ICachePolicy_init_def)
  then have "CacheSimulator_init 0 ks policy_type = CacheSimulator_init 1 ks policy_type"
    by (simp add: CacheSimulator_init_def LRUCache_init_def FIFOCache_init_def
        LFUCache_init_def)
  then show ?thesis by (simp add: init_inv)
qed

text \<open>
  C10. In every state a run reaches, under every policy, accessing a resident key is
  a hit after which the set of resident keys and the resident count are what they were.
\<close>

theorem hit_keeps_resident_set:
  "\<exists>es st sim.
     run (CacheSimulator_init cap ks policy_type) = Inr (es, st, sim) \<and>
     (k \<in> resident (cache sim) \<longrightarrow>
        (\<exists>p'. access (cache sim) k = Inr (Hit, p') \<and>
              resident p' = resident (cache sim) \<and>
              resident_count p' = resident_count (cache sim)))"
proof -
  from run_reach [of cap ks policy_type] obtain es p where
    r: "run (CacheSimulator_init cap ks policy_type) =
          Inr (es, print_stats p, CacheSimulator_init cap ks policy_type\<lparr>cache := p\<rparr>)"
    and i: "policy_inv p"
    by blast
  have "\<exists>p'. access p k = Inr (Hit, p') \<and> resident p' = resident p \<and>
          resident_count p' = resident_count p" if k: "k \<in> resident p"
  proof -
    from access_step [OF i, of k] k obtain p' where
      a: "access p k = Inr (Hit, p')" "policy_inv p'" "resident p' = resident p"
      by auto
    from policy_inv_count [OF i] policy_inv_count [OF a(2)] a(3)
    have "resident_count p' = resident_count p" by simp
    with a show ?thesis by blast
  qed
  with r show ?thesis by auto
qed

theorem hit_keeps_resident_set_witness:
  "\<exists>es st sim p'.
     run (CacheSimulator_init 2 [''A'', ''B''] ''LFU'') = Inr (es, st, sim) \<and>
     ''A'' \<in> resident (cache sim) \<and>
     access (cache sim) ''A'' = Inr (Hit, p') \<and>
     resident p' = resident (cache sim) \<and>
     resident_count p' = resident_count (cache sim)"
proof -
  from hit_keeps_resident_set [of 2 "[''A'', ''B'']" "''LFU''" "''A''"] obtain es st sim where
    r: "run (CacheSimulator_init 2 [''A'', ''B''] ''LFU'') = Inr (es, st, sim)"
    and h: "''A'' \<in> resident (cache sim) \<longrightarrow>
        (\<exists>p'. access (cache sim) ''A'' = Inr (Hit, p') \<and>
              resident p' = resident (cache sim) \<and>
              resident_count p' = resident_count (cache sim))"
    by blast
  have "case run (CacheSimulator_init 2 [''A'', ''B''] ''LFU'') of
          Inl f \<Rightarrow> False | Inr (es, st, sim) \<Rightarrow> ''A'' \<in> resident (cache sim)"
    by code_simp
  with r have "''A'' \<in> resident (cache sim)" by simp
  with r h show ?thesis by blast
qed

end
